theory Spec2Isabelle
  imports Complex_Main "HOL-Library.Multiset" "HOL-Library.Sublist" "HOL-Library.List_Lexorder"
begin

section \<open>Card model\<close>

text \<open>
  The global constants of \<^verbatim>\<open>equity_simulator.cpp\<close>: the rank characters, the suit
  characters, and the table from rank character to numeric value (ace high).
\<close>

definition RANKS :: string where
  "RANKS = ''AKQJT98765432''"

definition SUITS :: string where
  "SUITS = ''hdcs''"

definition RANK_VALUES :: "(char \<times> int) list" where
  "RANK_VALUES =
     [(CHR ''A'', 14), (CHR ''K'', 13), (CHR ''Q'', 12), (CHR ''J'', 11),
      (CHR ''T'', 10), (CHR ''9'', 9), (CHR ''8'', 8), (CHR ''7'', 7),
      (CHR ''6'', 6), (CHR ''5'', 5), (CHR ''4'', 4), (CHR ''3'', 3),
      (CHR ''2'', 2)]"

text \<open>\<^verbatim>\<open>struct Card { char rank; char suit; }\<close>; equality is field-wise.\<close>

record Card =
  rank :: char
  suit :: char

text \<open>
  Failures of the C++ code, as values. \<open>OutOfRange\<close> is the exception thrown by
  \<^verbatim>\<open>RANK_VALUES.at\<close> on a character that is no rank; \<open>IndexOutOfBounds\<close> stands for
  a read of a vector element past its end (\<^verbatim>\<open>suits[0]\<close>, \<^verbatim>\<open>sevenCards[i]\<close>,
  \<^verbatim>\<open>deck[1]\<close>), where the C++ program has no defined result.
\<close>

datatype error = OutOfRange | IndexOutOfBounds

definition rank_value_at :: "char \<Rightarrow> error + int" where
  "rank_value_at r = (case map_of RANK_VALUES r of None \<Rightarrow> Inl OutOfRange | Some v \<Rightarrow> Inr v)"

section \<open>Parsing the hero hand\<close>

text \<open>\<^verbatim>\<open>tolower\<close> of the C locale: the 26 upper-case letters move, all else stays.\<close>

definition tolower :: "char \<Rightarrow> char" where
  "tolower c =
     (let n = (of_char c :: nat)
      in if 65 \<le> n \<and> n \<le> 90 then char_of (n + 32) else c)"

text \<open>
  \<^verbatim>\<open>parseHand\<close>: two characters give the suits h and d; three characters give h and h
  when the third is an s (either case) and h and d otherwise; every other length gives the
  empty hand. No character is checked and nothing is reported.
\<close>

definition parseHand :: "string \<Rightarrow> Card list" where
  "parseHand handStr =
     (if length handStr = 2 then
        [\<lparr>rank = handStr ! 0, suit = CHR ''h''\<rparr>, \<lparr>rank = handStr ! 1, suit = CHR ''d''\<rparr>]
      else if length handStr = 3 then
        (let r1 = handStr ! 0; r2 = handStr ! 1; style = handStr ! 2
         in if tolower style = CHR ''s'' then
              [\<lparr>rank = r1, suit = CHR ''h''\<rparr>, \<lparr>rank = r2, suit = CHR ''h''\<rparr>]
            else
              [\<lparr>rank = r1, suit = CHR ''h''\<rparr>, \<lparr>rank = r2, suit = CHR ''d''\<rparr>])
      else [])"

section \<open>Building a deck\<close>

text \<open>
  \<^verbatim>\<open>buildDeck\<close>: the two nested loops over \<open>RANKS\<close> and \<open>SUITS\<close>, keeping a card when
  \<^verbatim>\<open>find\<close> does not meet it in the exclusion list.
\<close>

definition buildDeck :: "Card list \<Rightarrow> Card list" where
  "buildDeck exclude =
     concat (map (\<lambda>r. concat (map (\<lambda>s.
        (let c = \<lparr>rank = r, suit = s\<rparr>
         in if c \<notin> set exclude then [c] else [])) SUITS)) RANKS)"

section \<open>Five-card hand evaluator\<close>

text \<open>The first loop: the rank values of the cards in order; the first unknown rank throws.\<close>

fun rank_values_of :: "Card list \<Rightarrow> error + int list" where
  "rank_values_of [] = Inr []"
| "rank_values_of (c # cs) =
     (case rank_value_at (rank c) of
        Inl e \<Rightarrow> Inl e
      | Inr v \<Rightarrow> (case rank_values_of cs of Inl e \<Rightarrow> Inl e | Inr vs \<Rightarrow> Inr (v # vs)))"

text \<open>\<^verbatim>\<open>sort(values.begin(), values.end(), greater<int>())\<close>.\<close>

definition sort_desc :: "int list \<Rightarrow> int list" where
  "sort_desc vs = rev (sort vs)"

text \<open>\<^verbatim>\<open>count(suits.begin(), suits.end(), suits[0]) == 5\<close>, for a non-empty list.\<close>

definition is_flush :: "char list \<Rightarrow> bool" where
  "is_flush suits = (count_list suits (suits ! 0) = 5)"

text \<open>The sorted list without repetitions: ascending sort, then \<^verbatim>\<open>unique\<close> and \<^verbatim>\<open>erase\<close>.\<close>

definition unique_vals :: "int list \<Rightarrow> int list" where
  "unique_vals values = remdups_adj (sort values)"

text \<open>
  The straight test: the window loop over \<open>i = 0 .. size - 5\<close>, where a later window
  overwrites an earlier one, and then the ace-low test. The result is the pair
  \<open>(isStraight, straightHigh)\<close>.
\<close>

definition straight_window :: "int list \<Rightarrow> nat \<Rightarrow> bool \<times> int \<Rightarrow> bool \<times> int" where
  "straight_window u i st = (if u ! (i + 4) - u ! i = 4 then (True, u ! (i + 4)) else st)"

definition straight_check :: "int list \<Rightarrow> bool \<times> int" where
  "straight_check u =
     (let st = (if 5 \<le> length u then fold (straight_window u) [0 ..< length u - 4] (False, 0)
                else (False, 0))
      in if \<not> fst st \<and> 14 \<in> set u \<and> 2 \<in> set u \<and> 3 \<in> set u \<and> 4 \<in> set u \<and> 5 \<in> set u
         then (True, 5) else st)"

text \<open>
  \<^verbatim>\<open>map<int,int> freq\<close> as an association list kept in ascending key order, which is the
  order the map is iterated in; \<open>freq_incr v\<close> is \<^verbatim>\<open>freq[v]++\<close>.
\<close>

fun freq_incr :: "int \<Rightarrow> (int \<times> int) list \<Rightarrow> (int \<times> int) list" where
  "freq_incr v [] = [(v, 1)]"
| "freq_incr v ((k, c) # m) =
     (if v = k then (k, c + 1) # m
      else if v < k then (v, 1) # (k, c) # m
      else (k, c) # freq_incr v m)"

definition freq_of :: "int list \<Rightarrow> (int \<times> int) list" where
  "freq_of values = fold freq_incr values []"

text \<open>
  The comparator of the sort of \<open>countPairs\<close>: larger count first, then larger value. The
  pairs are (count, value) with pairwise different values, so the comparator orders them
  totally and the sorted vector is the same whatever sorting algorithm runs; insertion
  sort computes it here.
\<close>

definition count_before :: "int \<times> int \<Rightarrow> int \<times> int \<Rightarrow> bool" where
  "count_before a b = (if fst a = fst b then snd a > snd b else fst a > fst b)"

fun insert_before :: "int \<times> int \<Rightarrow> (int \<times> int) list \<Rightarrow> (int \<times> int) list" where
  "insert_before x [] = [x]"
| "insert_before x (y # ys) = (if count_before x y then x # y # ys else y # insert_before x ys)"

definition count_pairs :: "int list \<Rightarrow> (int \<times> int) list" where
  "count_pairs values = foldr insert_before (map (\<lambda>(v, c). (c, v)) (freq_of values)) []"

text \<open>
  The chain of branches that composes the hand value from the descending values, the flush
  flag, the straight pair and the sorted count pairs. The loops that end in \<^verbatim>\<open>break\<close>
  push the first value that passes the test, if there is one.
\<close>

definition compose_hand_value ::
    "int list \<Rightarrow> bool \<Rightarrow> bool \<times> int \<Rightarrow> (int \<times> int) list \<Rightarrow> int list" where
  "compose_hand_value values isFlush st countPairs =
     (let isStraight = fst st; straightHigh = snd st
      in if isStraight \<and> isFlush then [9, straightHigh]
         else if fst (countPairs ! 0) = 4 then
           [8, snd (countPairs ! 0)] @ take 1 (filter (\<lambda>v. v \<noteq> snd (countPairs ! 0)) values)
         else if fst (countPairs ! 0) = 3 \<and> length countPairs > 1 \<and> fst (countPairs ! 1) \<ge> 2 then
           [7, snd (countPairs ! 0), snd (countPairs ! 1)]
         else if isFlush then 6 # values
         else if isStraight then [5, straightHigh]
         else if fst (countPairs ! 0) = 3 then
           [4, snd (countPairs ! 0)] @ filter (\<lambda>v. v \<noteq> snd (countPairs ! 0)) values
         else if fst (countPairs ! 0) = 2 \<and> length countPairs \<ge> 2 \<and> fst (countPairs ! 1) = 2 then
           [3, snd (countPairs ! 0), snd (countPairs ! 1)]
             @ take 1 (filter (\<lambda>v. v \<noteq> snd (countPairs ! 0) \<and> v \<noteq> snd (countPairs ! 1)) values)
         else if fst (countPairs ! 0) = 2 then
           [2, snd (countPairs ! 0)] @ filter (\<lambda>v. v \<noteq> snd (countPairs ! 0)) values
         else 1 # values)"

text \<open>
  \<^verbatim>\<open>evaluate5CardHand\<close>. An empty vector of cards makes \<^verbatim>\<open>suits[0]\<close> a read past the
  end; with at least one card \<open>countPairs\<close> is not empty.
\<close>

definition evaluate5CardHand :: "Card list \<Rightarrow> error + int list" where
  "evaluate5CardHand cards =
     (case rank_values_of cards of
        Inl e \<Rightarrow> Inl e
      | Inr vs \<Rightarrow>
          if cards = [] then Inl IndexOutOfBounds
          else
            (let values = sort_desc vs
             in Inr (compose_hand_value values (is_flush (map suit cards))
                       (straight_check (unique_vals values)) (count_pairs values))))"

text \<open>
  \<^verbatim>\<open>lexicographical_compare(a, b)\<close>: \<open>a\<close> is lexicographically less than \<open>b\<close>; a proper
  prefix is less.
\<close>

fun lexicographical_compare :: "int list \<Rightarrow> int list \<Rightarrow> bool" where
  "lexicographical_compare [] [] = False"
| "lexicographical_compare [] (y # ys) = True"
| "lexicographical_compare (x # xs) [] = False"
| "lexicographical_compare (x # xs) (y # ys) =
     (if x < y then True else if y < x then False else lexicographical_compare xs ys)"

definition isBetterHand :: "int list \<Rightarrow> int list \<Rightarrow> bool" where
  "isBetterHand h1 h2 = lexicographical_compare h2 h1"

section \<open>Best hand of seven cards\<close>

text \<open>The index tuples \<open>(i, j, k, l, m)\<close> in the order the five nested loops visit them.\<close>

definition loop_indices :: "nat list list" where
  "loop_indices =
     concat (map (\<lambda>i.
       concat (map (\<lambda>j.
         concat (map (\<lambda>k.
           concat (map (\<lambda>l.
             map (\<lambda>m. [i, j, k, l, m]) [l + 1 ..< 7])
           [k + 1 ..< 6]))
         [j + 1 ..< 5]))
       [i + 1 ..< 4]))
     [0 ..< 3])"

text \<open>
  The loop body, run over the index tuples, on the state \<open>(bestVal, first)\<close>; an exception
  of the evaluator leaves the loops.
\<close>

fun best_loop :: "Card list \<Rightarrow> nat list list \<Rightarrow> int list \<times> bool \<Rightarrow> error + (int list \<times> bool)" where
  "best_loop sevenCards [] st = Inr st"
| "best_loop sevenCards (idx # rest) (bestVal, first) =
     (case evaluate5CardHand (map (\<lambda>i. sevenCards ! i) idx) of
        Inl e \<Rightarrow> Inl e
      | Inr val \<Rightarrow>
          best_loop sevenCards rest
            (if first \<or> isBetterHand val bestVal then (val, False) else (bestVal, first)))"

definition bestHandValue :: "Card list \<Rightarrow> error + int list" where
  "bestHandValue sevenCards =
     (if length sevenCards < 7 then Inl IndexOutOfBounds
      else (case best_loop sevenCards loop_indices ([], True) of
              Inl e \<Rightarrow> Inl e
            | Inr (bestVal, first) \<Rightarrow> Inr bestVal))"

section \<open>Equity simulator\<close>

text \<open>
  The class \<^verbatim>\<open>EquitySimulator\<close>: its three members, and the constructor, which parses
  the hand string into the hero hand.
\<close>

record EquitySimulator =
  heroHandStr :: string
  simulations :: int
  heroHand :: "Card list"

definition new_EquitySimulator :: "string \<Rightarrow> int \<Rightarrow> EquitySimulator" where
  "new_EquitySimulator str n = \<lparr>heroHandStr = str, simulations = n, heroHand = parseHand str\<rparr>"

text \<open>
  The cards of one trial, from the hero hand and the shuffled deck: the opponent hand
  \<^verbatim>\<open>{deck[0], deck[1]}\<close>, the board (the first five of the remaining cards), and the two
  seven-card vectors, in this order.
\<close>

definition deal :: "Card list \<Rightarrow> Card list \<Rightarrow> Card list \<times> Card list \<times> Card list \<times> Card list" where
  "deal hero deck =
     (let oppHand = [deck ! 0, deck ! 1];
          remaining = drop 2 deck;
          board = take 5 remaining;
          heroSeven = hero @ board;
          oppSeven = oppHand @ board
      in (oppHand, board, heroSeven, oppSeven))"

text \<open>
  The three-way branch on the two hand values. On vectors \<^verbatim>\<open>heroVal > oppVal\<close> is
  \<^verbatim>\<open>lexicographical_compare\<close> of \<open>oppVal\<close> against \<open>heroVal\<close>, and \<^verbatim>\<open>==\<close> is equality
  of the sequences.
\<close>

datatype outcome = Win | Tie | Loss

definition compare_values :: "int list \<Rightarrow> int list \<Rightarrow> outcome" where
  "compare_values heroVal oppVal =
     (if lexicographical_compare oppVal heroVal then Win
      else if heroVal = oppVal then Tie
      else Loss)"

text \<open>
  One pass of the loop body of \<^verbatim>\<open>simulate\<close>. The random generator is a state of an
  arbitrary type \<open>'g\<close>, and \<^verbatim>\<open>std::shuffle\<close> is a parameter that maps the generator
  state and the deck to the shuffled deck and the next state. Reading \<^verbatim>\<open>deck[1]\<close> or
  five cards of \<^verbatim>\<open>remaining\<close> needs a deck of at least seven cards.
\<close>

definition trial ::
    "('g \<Rightarrow> Card list \<Rightarrow> Card list \<times> 'g) \<Rightarrow> Card list \<Rightarrow> 'g \<Rightarrow> error + (outcome \<times> 'g)" where
  "trial shuffle hero gen =
     (let (deck, gen') = shuffle gen (buildDeck hero)
      in if length deck < 7 then Inl IndexOutOfBounds
         else
           (case deal hero deck of (oppHand, board, heroSeven, oppSeven) \<Rightarrow>
              (case bestHandValue heroSeven of
                 Inl e \<Rightarrow> Inl e
               | Inr heroVal \<Rightarrow>
                   (case bestHandValue oppSeven of
                      Inl e \<Rightarrow> Inl e
                    | Inr oppVal \<Rightarrow> Inr (compare_values heroVal oppVal, gen')))))"

text \<open>The three counters of \<^verbatim>\<open>simulate\<close>, and the increment each outcome makes.\<close>

record tally =
  wins :: int
  ties :: int
  losses :: int

definition count_outcome :: "outcome \<Rightarrow> tally \<Rightarrow> tally" where
  "count_outcome oc t =
     (case oc of
        Win \<Rightarrow> t\<lparr>wins := wins t + 1\<rparr>
      | Tie \<Rightarrow> t\<lparr>ties := ties t + 1\<rparr>
      | Loss \<Rightarrow> t\<lparr>losses := losses t + 1\<rparr>)"

text \<open>
  The loop \<^verbatim>\<open>for (int i = 0; i < simulations; i++)\<close>. The counters never exceed
  \<open>simulations\<close>, which is a machine integer, so they are modelled as unbounded integers.
\<close>

function simulate_loop ::
    "('g \<Rightarrow> Card list \<Rightarrow> Card list \<times> 'g) \<Rightarrow> Card list \<Rightarrow> int \<Rightarrow> int \<Rightarrow> tally \<Rightarrow> 'g
       \<Rightarrow> error + (tally \<times> 'g)" where
  "simulate_loop shuffle hero n i t gen =
     (if i < n then
        (case trial shuffle hero gen of
           Inl e \<Rightarrow> Inl e
         | Inr (oc, gen') \<Rightarrow> simulate_loop shuffle hero n (i + 1) (count_outcome oc t) gen')
      else Inr (t, gen))"
  by pat_completeness auto
termination
  by (relation "measure (\<lambda>(shuffle, hero, n, i, t, gen). nat (n - i))") auto

text \<open>
  The quotient \<^verbatim>\<open>(wins + 0.5 * ties) / double(total)\<close>. The model computes it exactly,
  as a real number; the C++ double is this number rounded. With \<open>total = 0\<close> the C++
  quotient is \<open>0.0 / 0.0\<close>, not a number, which is \<open>None\<close> here.
\<close>

definition equity_of :: "tally \<Rightarrow> real option" where
  "equity_of t =
     (let total = wins t + ties t + losses t
      in if total = 0 then None
         else Some ((real_of_int (wins t) + 0.5 * real_of_int (ties t)) / real_of_int total))"

definition simulate ::
    "('g \<Rightarrow> Card list \<Rightarrow> Card list \<times> 'g) \<Rightarrow> EquitySimulator \<Rightarrow> 'g \<Rightarrow> error + real option" where
  "simulate shuffle sim gen =
     (case simulate_loop shuffle (heroHand sim) (simulations sim) 0
             \<lparr>wins = 0, ties = 0, losses = 0\<rparr> gen of
        Inl e \<Rightarrow> Inl e
      | Inr (t, gen') \<Rightarrow> Inr (equity_of t))"

section \<open>Notions of the specification\<close>

text \<open>
  A card is valid when its rank is one of \<open>RANKS\<close> and its suit one of \<open>SUITS\<close>; a valid
  five-card hand is five pairwise different valid cards.
\<close>

definition valid_card :: "Card \<Rightarrow> bool" where
  "valid_card c = (rank c \<in> set RANKS \<and> suit c \<in> set SUITS)"

definition valid_hand :: "Card list \<Rightarrow> bool" where
  "valid_hand cards = (length cards = 5 \<and> distinct cards \<and> (\<forall>c\<in>set cards. valid_card c))"

text \<open>A card written as its rank character followed by its suit character.\<close>

definition card_named :: "string \<Rightarrow> Card" where
  "card_named s = \<lparr>rank = s ! 0, suit = s ! 1\<rparr>"

text \<open>The value of a rank character as a total function, and the values of a hand in order.\<close>

definition rank_val :: "char \<Rightarrow> int" where
  "rank_val r = (case map_of RANK_VALUES r of None \<Rightarrow> 0 | Some v \<Rightarrow> v)"

definition hand_vals :: "Card list \<Rightarrow> int list" where
  "hand_vals cards = map (\<lambda>c. rank_val (rank c)) cards"

text \<open>
  The poker classes, stated on the rank values and suits of a hand and not on what the
  evaluator computes: all suits identical; some value occurring exactly \<open>n\<close> times; two
  different values occurring twice each; the values being five consecutive numbers or the
  wheel A-2-3-4-5. The category is the first class of the ranking, from straight
  flush (9) down to high card (1), that the hand belongs to.
\<close>

definition same_suit :: "Card list \<Rightarrow> bool" where
  "same_suit cards = (\<forall>c\<in>set cards. \<forall>c'\<in>set cards. suit c = suit c')"

definition of_a_kind :: "nat \<Rightarrow> int list \<Rightarrow> bool" where
  "of_a_kind n vs = (\<exists>v\<in>set vs. count_list vs v = n)"

definition two_pairs :: "int list \<Rightarrow> bool" where
  "two_pairs vs = (\<exists>v\<in>set vs. \<exists>w\<in>set vs. v \<noteq> w \<and> count_list vs v = 2 \<and> count_list vs w = 2)"

definition run_of_five :: "int list \<Rightarrow> bool" where
  "run_of_five vs = ((\<exists>h\<in>set vs. set vs = {h - 4 .. h}) \<or> set vs = {14, 2, 3, 4, 5})"

definition category_of :: "int list \<Rightarrow> bool \<Rightarrow> int" where
  "category_of vs fl =
     (if run_of_five vs \<and> fl then 9
      else if of_a_kind 4 vs then 8
      else if of_a_kind 3 vs \<and> of_a_kind 2 vs then 7
      else if fl then 6
      else if run_of_five vs then 5
      else if of_a_kind 3 vs then 4
      else if two_pairs vs then 3
      else if of_a_kind 2 vs then 2
      else 1)"

definition hand_category :: "Card list \<Rightarrow> int" where
  "hand_category cards = category_of (hand_vals cards) (same_suit cards)"

text \<open>
  Exactly one pair, of value \<open>p\<close>, and no larger group: \<open>p\<close> occurs twice and every other
  value of the hand once.
\<close>

definition one_pair_of :: "int \<Rightarrow> int list \<Rightarrow> bool" where
  "one_pair_of p vs = (count_list vs p = 2 \<and> (\<forall>v\<in>set vs. v \<noteq> p \<longrightarrow> count_list vs v = 1))"

text \<open>The number of elements of a hand value of each category.\<close>

definition length_of_category :: "int \<Rightarrow> nat" where
  "length_of_category c =
     (if c = 9 \<or> c = 5 then 2
      else if c = 8 \<or> c = 7 then 3
      else if c = 4 \<or> c = 3 then 4
      else if c = 2 then 5
      else if c = 6 \<or> c = 1 then 6
      else 0)"

text \<open>
  The value \<^verbatim>\<open>evaluate5CardHand\<close> composes, as a function of the descending values and
  the flush flag alone.
\<close>

definition hand_value_of :: "int list \<Rightarrow> bool \<Rightarrow> int list" where
  "hand_value_of values fl =
     compose_hand_value values fl (straight_check (unique_vals values)) (count_pairs values)"

text \<open>
  Hand notation as the format comment of \<^verbatim>\<open>parseHand\<close> and the specification describe
  it: a pocket pair is two equal rank characters; any other hand is two different rank
  characters followed by s (suited) or o (offsuit).
\<close>

definition well_formed_notation :: "string \<Rightarrow> bool" where
  "well_formed_notation s =
     ((length s = 2 \<and> s ! 0 \<in> set RANKS \<and> s ! 1 = s ! 0)
      \<or> (length s = 3 \<and> s ! 0 \<in> set RANKS \<and> s ! 1 \<in> set RANKS \<and> s ! 0 \<noteq> s ! 1
           \<and> (s ! 2 = CHR ''s'' \<or> s ! 2 = CHR ''o'')))"

text \<open>A five-card subset of a seven-card list, as a list of five different cards of it.\<close>

definition five_card_subset :: "Card list \<Rightarrow> Card list \<Rightarrow> bool" where
  "five_card_subset five seven = (length five = 5 \<and> distinct five \<and> set five \<subseteq> set seven)"

text \<open>
  A valid hero hand is two different valid cards. The one property of \<^verbatim>\<open>std::shuffle\<close>
  that the claims rest on is that the shuffled deck is a permutation of the deck.
\<close>

definition valid_hero :: "Card list \<Rightarrow> bool" where
  "valid_hero hero = (length hero = 2 \<and> distinct hero \<and> (\<forall>c\<in>set hero. valid_card c))"

definition permuting :: "('g \<Rightarrow> Card list \<Rightarrow> Card list \<times> 'g) \<Rightarrow> bool" where
  "permuting shuffle = (\<forall>g xs. mset (fst (shuffle g xs)) = mset xs)"

text \<open>
  The generator state at the start of trial \<open>k\<close> of a run (each trial shuffles once), and
  the two hand values of the trial that starts in a given generator state: those of the
  hero's and of the opponent's seven cards.
\<close>

definition gen_at :: "('g \<Rightarrow> Card list \<Rightarrow> Card list \<times> 'g) \<Rightarrow> Card list \<Rightarrow> nat \<Rightarrow> 'g \<Rightarrow> 'g" where
  "gen_at shuffle hero k gen = ((\<lambda>g. snd (shuffle g (buildDeck hero))) ^^ k) gen"

definition trial_values ::
    "('g \<Rightarrow> Card list \<Rightarrow> Card list \<times> 'g) \<Rightarrow> Card list \<Rightarrow> 'g \<Rightarrow> (error + int list) \<times> (error + int list)" where
  "trial_values shuffle hero gen =
     (case deal hero (fst (shuffle gen (buildDeck hero))) of
        (oppHand, board, heroSeven, oppSeven) \<Rightarrow> (bestHandValue heroSeven, bestHandValue oppSeven))"

text \<open>A tally after a list of outcomes has been counted into it.\<close>

definition add_outcomes :: "outcome list \<Rightarrow> tally \<Rightarrow> tally" where
  "add_outcomes ocs t =
     \<lparr>wins = wins t + int (count_list ocs Win), ties = ties t + int (count_list ocs Tie),
      losses = losses t + int (count_list ocs Loss)\<rparr>"

section \<open>The evaluator on five sorted values\<close>

lemma rank_value_at_valid:
  "r \<in> set RANKS \<Longrightarrow> rank_value_at r = Inr (rank_val r)"
  by (auto simp: RANKS_def rank_value_at_def rank_val_def RANK_VALUES_def)

lemma rank_values_of_valid:
  "\<forall>c\<in>set cards. rank c \<in> set RANKS \<Longrightarrow> rank_values_of cards = Inr (map (\<lambda>c. rank_val (rank c)) cards)"
  by (induction cards) (simp_all add: rank_value_at_valid)

lemma list5: "length xs = 5 \<Longrightarrow> \<exists>a b c d e. xs = [a,b,c,d,e]"
  by (auto simp: length_Suc_conv eval_nat_numeral)

lemma sort_desc_5:
  assumes "length vs = 5"
  shows "\<exists>a b c d e. sort_desc vs = [a,b,c,d,e] \<and> a \<ge> b \<and> b \<ge> c \<and> c \<ge> d \<and> d \<ge> e
            \<and> mset vs = {#a,b,c,d,e#}"
proof -
  have "length (sort vs) = 5" using assms by simp
  then obtain e d c b a where s: "sort vs = [e,d,c,b,a]" using list5 by blast
  have "sorted (sort vs)" by simp
  then have ord: "a \<ge> b \<and> b \<ge> c \<and> c \<ge> d \<and> d \<ge> e" unfolding s by simp
  have sd: "sort_desc vs = [a,b,c,d,e]" unfolding sort_desc_def s by simp
  have "mset (sort_desc vs) = mset vs" unfolding sort_desc_def by simp
  then have "mset vs = {#a,b,c,d,e#}" unfolding sd by simp
  with sd ord show ?thesis by blast
qed

lemma uv5: assumes "a \<ge> b" "b \<ge> c" "c \<ge> d" "d \<ge> (e::int)"
  shows "unique_vals [a,b,c,d,e] = remdups_adj [e,d,c,b,a]"
  using assms by (simp add: unique_vals_def)

lemma wheel_iff:
  assumes "a > b" "b > c" "c > d" "d > (e::int)"
  shows "(14 \<in> set [e,d,c,b,a] \<and> 2 \<in> set [e,d,c,b,a] \<and> 3 \<in> set [e,d,c,b,a]
           \<and> 4 \<in> set [e,d,c,b,a] \<and> 5 \<in> set [e,d,c,b,a])
         \<longleftrightarrow> (a = 14 \<and> b = 5 \<and> c = 4 \<and> d = 3 \<and> e = 2)"
proof
  assume m: "14 \<in> set [e,d,c,b,a] \<and> 2 \<in> set [e,d,c,b,a] \<and> 3 \<in> set [e,d,c,b,a]
           \<and> 4 \<in> set [e,d,c,b,a] \<and> 5 \<in> set [e,d,c,b,a]"
  have sub: "set [2,3,4,5,14::int] \<subseteq> set [e,d,c,b,a]" using m by simp
  have d1: "distinct [e,d,c,b,a]" and s1: "sorted [e,d,c,b,a]" using assms by auto
  have d2: "distinct [2,3,4,5,14::int]" and s2: "sorted [2,3,4,5,14::int]" by auto
  have "card (set [e,d,c,b,a]) = 5" using d1 distinct_card[of "[e,d,c,b,a]"] by simp
  moreover have "card (set [2,3,4,5,14::int]) = 5" using d2 distinct_card[of "[2,3,4,5,14::int]"] by simp
  ultimately have "set [2,3,4,5,14::int] = set [e,d,c,b,a]"
    using sub card_subset_eq[of "set [e,d,c,b,a]" "set [2,3,4,5,14::int]"] by simp
  then have "[2,3,4,5,14::int] = [e,d,c,b,a]"
    using sorted_distinct_set_unique[OF s2 d2 s1 d1] by simp
  then show "a = 14 \<and> b = 5 \<and> c = 4 \<and> d = 3 \<and> e = 2" by simp
next
  assume "a = 14 \<and> b = 5 \<and> c = 4 \<and> d = 3 \<and> e = 2"
  then show "14 \<in> set [e,d,c,b,a] \<and> 2 \<in> set [e,d,c,b,a] \<and> 3 \<in> set [e,d,c,b,a]
           \<and> 4 \<in> set [e,d,c,b,a] \<and> 5 \<in> set [e,d,c,b,a]" by simp
qed

lemma sc_distinct:
  assumes "a > b" "b > c" "c > d" "d > (e::int)"
  shows "straight_check [e,d,c,b,a] =
        (if a - e = 4 then (True, a)
         else if a = 14 \<and> b = 5 \<and> c = 4 \<and> d = 3 \<and> e = 2 then (True, 5) else (False, 0))"
proof -
  have w: "fold (straight_window [e,d,c,b,a]) [0 ..< length [e,d,c,b,a] - 4] (False, 0)
          = (if a - e = 4 then (True, a) else (False, 0))"
    by (simp add: straight_window_def)
  show ?thesis
    unfolding straight_check_def Let_def w wheel_iff[OF assms]
    by simp
qed

lemma sc_short:
  assumes "length u < 5"
  shows "straight_check u = (False, 0)"
proof -
  have "\<not> (14 \<in> set u \<and> 2 \<in> set u \<and> 3 \<in> set u \<and> 4 \<in> set u \<and> 5 \<in> set u)"
  proof
    assume "14 \<in> set u \<and> 2 \<in> set u \<and> 3 \<in> set u \<and> 4 \<in> set u \<and> 5 \<in> set u"
    then have "set [2,3,4,5,14::int] \<subseteq> set u" by simp
    then have "card (set [2,3,4,5,14::int]) \<le> card (set u)" by (intro card_mono) auto
    moreover have "card (set [2,3,4,5,14::int]) = 5"
      using distinct_card[of "[2,3,4,5,14::int]"] by simp
    moreover have "card (set u) \<le> length u" by (rule card_length)
    ultimately show False using assms by simp
  qed
  then show ?thesis using assms unfolding straight_check_def Let_def by simp
qed

lemma straight_cases:
  assumes "a \<ge> b" "b \<ge> c" "c \<ge> d" "d \<ge> (e::int)"
  shows "straight_check (unique_vals [a,b,c,d,e]) =
     (if a > b \<and> b > c \<and> c > d \<and> d > e then
        (if a - e = 4 then (True, a)
         else if a = 14 \<and> b = 5 \<and> c = 4 \<and> d = 3 \<and> e = 2 then (True, 5) else (False, 0))
      else (False, 0))"
proof (cases "a > b \<and> b > c \<and> c > d \<and> d > e")
  case True
  then have "unique_vals [a,b,c,d,e] = [e,d,c,b,a]" by (simp add: unique_vals_def)
  then show ?thesis using True sc_distinct[of b a c d e] by simp
next
  case False
  have "length (remdups_adj [e,d,c,b,a]) < 5" using False assms by auto
  then have "straight_check (remdups_adj [e,d,c,b,a]) = (False, 0)"
    by (rule sc_short)
  then have "straight_check (unique_vals [a,b,c,d,e]) = (False, 0)"
    by (simp only: uv5[OF assms])
  then show ?thesis by (simp only: False if_False)
qed

lemma cp_cases:
  assumes "a \<ge> b" "b \<ge> c" "c \<ge> d" "d \<ge> (e::int)"
  shows "count_pairs [a,b,c,d,e] =
    (if a = b then
       (if b = c then
          (if c = d then (if d = e then [(5,a)] else [(4,a),(1,e)])
           else (if d = e then [(3,a),(2,d)] else [(3,a),(1,d),(1,e)]))
        else
          (if c = d then (if d = e then [(3,c),(2,a)] else [(2,a),(2,c),(1,e)])
           else (if d = e then [(2,a),(2,d),(1,c)] else [(2,a),(1,c),(1,d),(1,e)])))
     else
       (if b = c then
          (if c = d then (if d = e then [(4,b),(1,a)] else [(3,b),(1,a),(1,e)])
           else (if d = e then [(2,b),(2,d),(1,a)] else [(2,b),(1,a),(1,d),(1,e)]))
        else
          (if c = d then (if d = e then [(3,c),(1,a),(1,b)] else [(2,c),(1,a),(1,b),(1,e)])
           else (if d = e then [(2,d),(1,a),(1,b),(1,c)] else [(1,a),(1,b),(1,c),(1,d),(1,e)]))))"
  using assms by (simp add: count_pairs_def freq_of_def count_before_def)

lemma hv_cases:
  assumes "a \<ge> b" "b \<ge> c" "c \<ge> d" "d \<ge> (e::int)"
  shows "hand_value_of [a,b,c,d,e] fl =
    (if a = b then
       (if b = c then
          (if c = d then (if d = e then (if fl then [6,a,b,c,d,e] else [1,a,b,c,d,e]) else [8,a,e])
           else (if d = e then [7,a,d] else if fl then [6,a,b,c,d,e] else [4,a,d,e]))
        else
          (if c = d then (if d = e then [7,c,a] else if fl then [6,a,b,c,d,e] else [3,a,c,e])
           else if fl then [6,a,b,c,d,e] else (if d = e then [3,a,d,c] else [2,a,c,d,e])))
     else
       (if b = c then
          (if c = d then (if d = e then [8,b,a] else if fl then [6,a,b,c,d,e] else [4,b,a,e])
           else if fl then [6,a,b,c,d,e] else (if d = e then [3,b,d,a] else [2,b,a,d,e]))
        else
          (if c = d then (if fl then [6,a,b,c,d,e] else if d = e then [4,c,a,b] else [2,c,a,b,e])
           else (if d = e then (if fl then [6,a,b,c,d,e] else [2,d,a,b,c])
                 else (if a - e = 4 then (if fl then [9,a] else [5,a])
                       else if a = 14 \<and> b = 5 \<and> c = 4 \<and> d = 3 \<and> e = 2
                            then (if fl then [9,5] else [5,5])
                       else if fl then [6,a,b,c,d,e] else [1,a,b,c,d,e])))))"
  unfolding hand_value_of_def cp_cases[OF assms] straight_cases[OF assms] compose_hand_value_def
  using assms by (simp add: Let_def)

lemma count_list_mset: "count_list xs x = count (mset xs) x"
  by (induction xs) auto

lemma run_cases:
  assumes "a \<ge> b" "b \<ge> c" "c \<ge> d" "d \<ge> (e::int)"
  shows "run_of_five [a,b,c,d,e] \<longleftrightarrow>
     (a > b \<and> b > c \<and> c > d \<and> d > e \<and> (a - e = 4 \<or> (a = 14 \<and> b = 5 \<and> c = 4 \<and> d = 3 \<and> e = 2)))"
proof
  assume r: "run_of_five [a,b,c,d,e]"
  have c5: "card (set [a,b,c,d,e]) = 5"
  proof -
    from r consider h where "set [a,b,c,d,e] = {h - 4 .. h}" | "set [a,b,c,d,e] = {14, 2, 3, 4, 5}"
      unfolding run_of_five_def by blast
    then show ?thesis
    proof cases
      case 1 then show ?thesis by simp
    next
      case 2
      have "card {14, 2, 3, 4, 5::int} = 5" by simp
      with 2 show ?thesis by simp
    qed
  qed
  then have "distinct [a,b,c,d,e]" using card_distinct[of "[a,b,c,d,e]"] by simp
  with assms have strict: "a > b \<and> b > c \<and> c > d \<and> d > e" by auto
  from r consider h where "h \<in> set [a,b,c,d,e]" "set [a,b,c,d,e] = {h - 4 .. h}"
    | "set [a,b,c,d,e] = {14, 2, 3, 4, 5}"
    unfolding run_of_five_def by blast
  then have "a - e = 4 \<or> (a = 14 \<and> b = 5 \<and> c = 4 \<and> d = 3 \<and> e = 2)"
  proof cases
    case 1
    have "a \<in> {h - 4 .. h}" "e \<in> {h - 4 .. h}" using 1(2) by auto
    moreover have "h \<le> a" using 1(1) assms by auto
    moreover have "h - 4 \<in> set [a,b,c,d,e]" using 1(2) by simp
    then have "e \<le> h - 4" using assms by auto
    ultimately show ?thesis by simp
  next
    case 2
    then have "14 \<in> set [e,d,c,b,a] \<and> 2 \<in> set [e,d,c,b,a] \<and> 3 \<in> set [e,d,c,b,a]
           \<and> 4 \<in> set [e,d,c,b,a] \<and> 5 \<in> set [e,d,c,b,a]" by auto
    then show ?thesis using wheel_iff[of b a c d e] strict by blast
  qed
  with strict show "a > b \<and> b > c \<and> c > d \<and> d > e \<and> (a - e = 4 \<or> (a = 14 \<and> b = 5 \<and> c = 4 \<and> d = 3 \<and> e = 2))"
    by blast
next
  assume h: "a > b \<and> b > c \<and> c > d \<and> d > e \<and> (a - e = 4 \<or> (a = 14 \<and> b = 5 \<and> c = 4 \<and> d = 3 \<and> e = 2))"
  then consider "a - e = 4" | "a = 14 \<and> b = 5 \<and> c = 4 \<and> d = 3 \<and> e = 2" by blast
  then show "run_of_five [a,b,c,d,e]"
  proof cases
    case 1
    with h have "b = a - 1" "c = a - 2" "d = a - 3" "e = a - 4" by auto
    then have "set [a,b,c,d,e] = {a - 4 .. a}" by auto
    then show ?thesis unfolding run_of_five_def by (intro disjI1 bexI[of _ a]) auto
  next
    case 2
    then show ?thesis unfolding run_of_five_def by auto
  qed
qed

lemma kind4_cases:
  assumes "a \<ge> b" "b \<ge> c" "c \<ge> d" "d \<ge> (e::int)"
  shows "of_a_kind 4 [a,b,c,d,e] \<longleftrightarrow> (a = b \<and> b = c \<and> c = d \<and> d \<noteq> e) \<or> (a \<noteq> b \<and> b = c \<and> c = d \<and> d = e)"
  using assms unfolding of_a_kind_def by auto

lemma kind3_cases:
  assumes "a \<ge> b" "b \<ge> c" "c \<ge> d" "d \<ge> (e::int)"
  shows "of_a_kind 3 [a,b,c,d,e] \<longleftrightarrow>
     (a = b \<and> b = c \<and> c \<noteq> d) \<or> (a \<noteq> b \<and> b = c \<and> c = d \<and> d \<noteq> e) \<or> (b \<noteq> c \<and> c = d \<and> d = e)"
  using assms unfolding of_a_kind_def by auto

lemma kind2_cases:
  assumes "a \<ge> b" "b \<ge> c" "c \<ge> d" "d \<ge> (e::int)"
  shows "of_a_kind 2 [a,b,c,d,e] \<longleftrightarrow>
     (a = b \<and> b \<noteq> c) \<or> (a \<noteq> b \<and> b = c \<and> c \<noteq> d) \<or> (b \<noteq> c \<and> c = d \<and> d \<noteq> e) \<or> (c \<noteq> d \<and> d = e)"
  using assms unfolding of_a_kind_def by auto

lemma two_pairs_cases:
  assumes "a \<ge> b" "b \<ge> c" "c \<ge> d" "d \<ge> (e::int)"
  shows "two_pairs [a,b,c,d,e] \<longleftrightarrow>
     (a = b \<and> b \<noteq> c \<and> c = d \<and> d \<noteq> e) \<or> (a = b \<and> b \<noteq> c \<and> c \<noteq> d \<and> d = e)
      \<or> (a \<noteq> b \<and> b = c \<and> c \<noteq> d \<and> d = e)"
  using assms unfolding two_pairs_def by auto

lemma cat_sorted:
  assumes "a \<ge> b" "b \<ge> c" "c \<ge> d" "d \<ge> (e::int)"
  shows "hand_value_of [a,b,c,d,e] fl \<noteq> [] \<and>
         hd (hand_value_of [a,b,c,d,e] fl) = category_of [a,b,c,d,e] fl"
  unfolding hv_cases[OF assms] category_of_def run_cases[OF assms] kind4_cases[OF assms]
    kind3_cases[OF assms] kind2_cases[OF assms] two_pairs_cases[OF assms]
  using assms by (cases "a = b"; cases "b = c"; cases "c = d"; cases "d = e"; simp)

lemma category_of_mset:
  assumes "mset vs = mset ws"
  shows "category_of vs fl = category_of ws fl"
proof -
  have s: "set vs = set ws" using assms by (rule mset_eq_setD)
  have c: "\<And>x. count_list vs x = count_list ws x" using assms by (simp add: count_list_mset)
  show ?thesis
    unfolding category_of_def run_of_five_def of_a_kind_def two_pairs_def s c ..
qed

lemma count_list_le_length: "count_list xs x \<le> length xs"
  by (induction xs) auto

lemma count_list_full: "count_list xs x = length xs \<longleftrightarrow> (\<forall>y\<in>set xs. y = x)"
proof (induction xs)
  case Nil
  then show ?case by simp
next
  case (Cons y ys)
  then show ?case using count_list_le_length[of ys x] by auto
qed

lemma is_flush_same_suit:
  assumes "length cards = 5"
  shows "is_flush (map suit cards) = same_suit cards"
proof -
  obtain c1 c2 c3 c4 c5 where cs: "cards = [c1,c2,c3,c4,c5]" using list5[OF assms] by blast
  have "is_flush (map suit cards) \<longleftrightarrow> count_list (map suit cards) (suit c1) = length (map suit cards)"
    unfolding is_flush_def cs by simp
  also have "\<dots> \<longleftrightarrow> (\<forall>y\<in>set (map suit cards). y = suit c1)" by (rule count_list_full)
  also have "\<dots> \<longleftrightarrow> same_suit cards" unfolding same_suit_def cs by auto
  finally show ?thesis .
qed

lemma evaluate_valid:
  assumes "length cards = 5" "\<forall>c\<in>set cards. rank c \<in> set RANKS"
  shows "evaluate5CardHand cards =
           Inr (hand_value_of (sort_desc (hand_vals cards)) (same_suit cards))"
proof -
  have "cards \<noteq> []" using assms(1) by auto
  then show ?thesis
    unfolding evaluate5CardHand_def rank_values_of_valid[OF assms(2)] hand_value_of_def hand_vals_def
    by (simp add: is_flush_same_suit[OF assms(1)] Let_def)
qed

lemma one_pair_sorted:
  assumes "a \<ge> b" "b \<ge> c" "c \<ge> d" "d \<ge> (e::int)" "one_pair_of p [a,b,c,d,e]"
  shows "hand_value_of [a,b,c,d,e] False = 2 # p # filter (\<lambda>v. v \<noteq> p) [a,b,c,d,e]
         \<and> length (filter (\<lambda>v. v \<noteq> p) [a,b,c,d,e]) = 3"
  using assms(5) unfolding hv_cases[OF assms(1-4)] one_pair_of_def
  using assms(1-4)
  by (cases "a = b"; cases "b = c"; cases "c = d"; cases "d = e"; auto split: if_splits)

lemma length_sorted:
  assumes "a \<ge> b" "b \<ge> c" "c \<ge> d" "d \<ge> (e::int)"
  shows "length (hand_value_of [a,b,c,d,e] fl) = length_of_category (hd (hand_value_of [a,b,c,d,e] fl))"
  unfolding hv_cases[OF assms] length_of_category_def
  by (cases "a = b"; cases "b = c"; cases "c = d"; cases "d = e"; simp)

lemma lex_head: "x < y \<Longrightarrow> lexicographical_compare (x # xs) (y # ys) \<and> \<not> lexicographical_compare (y # ys) (x # xs)"
  by simp

lemma sort_desc_unique:
  assumes "sorted ys" "distinct ys" "length vs = length ys" "set vs = set ys"
  shows "sort_desc vs = rev ys"
proof -
  have "card (set vs) = length vs" using assms distinct_card[of ys] by simp
  then have "distinct vs" by (rule card_distinct)
  then have "distinct (sort vs)" by simp
  moreover have "sorted (sort vs)" by simp
  moreover have "set (sort vs) = set ys" using assms(4) by simp
  ultimately have "sort vs = ys" using assms(1,2) sorted_distinct_set_unique by blast
  then show ?thesis by (simp add: sort_desc_def)
qed

lemma eval_category_length:
  assumes "length cards = 5" "\<forall>c\<in>set cards. rank c \<in> set RANKS"
  shows "\<exists>v. evaluate5CardHand cards = Inr v \<and> v \<noteq> [] \<and> hd v = hand_category cards
            \<and> length v = length_of_category (hd v)"
proof -
  have "length (hand_vals cards) = 5" using assms(1) by (simp add: hand_vals_def)
  from sort_desc_5[OF this] obtain a b c d e where
    s: "sort_desc (hand_vals cards) = [a,b,c,d,e]" and o: "a \<ge> b" "b \<ge> c" "c \<ge> d" "d \<ge> e"
    and m: "mset (hand_vals cards) = {#a,b,c,d,e#}" by blast
  have "mset (hand_vals cards) = mset [a,b,c,d,e]" using m by simp
  then have "hand_category cards = category_of [a,b,c,d,e] (same_suit cards)"
    unfolding hand_category_def by (rule category_of_mset)
  then show ?thesis
    using cat_sorted[OF o, of "same_suit cards"] length_sorted[OF o, of "same_suit cards"]
      evaluate_valid[OF assms] s by simp
qed

lemma valid_hand_ranks: "valid_hand h \<Longrightarrow> length h = 5 \<and> (\<forall>c\<in>set h. rank c \<in> set RANKS)"
  by (simp add: valid_hand_def valid_card_def)

lemma one_pair_of_mset:
  assumes "mset vs = mset ws"
  shows "one_pair_of p vs = one_pair_of p ws"
proof -
  have s: "set vs = set ws" using assms by (rule mset_eq_setD)
  have c: "\<And>x. count_list vs x = count_list ws x" using assms by (simp add: count_list_mset)
  show ?thesis unfolding one_pair_of_def s c ..
qed

lemma sort_desc_filter: "sort_desc (filter P vs) = filter P (sort_desc vs)"
  unfolding sort_desc_def by (simp add: rev_filter[symmetric] filter_sort)

lemma one_pair_eval:
  assumes "valid_hand h" "\<not> same_suit h" "one_pair_of p (hand_vals h)"
  shows "evaluate5CardHand h = Inr (2 # p # sort_desc (filter (\<lambda>v. v \<noteq> p) (hand_vals h)))
         \<and> length (sort_desc (filter (\<lambda>v. v \<noteq> p) (hand_vals h))) = 3"
proof -
  note r = valid_hand_ranks[OF assms(1)]
  have "length (hand_vals h) = 5" using r by (simp add: hand_vals_def)
  from sort_desc_5[OF this] obtain a b c d e where
    s: "sort_desc (hand_vals h) = [a,b,c,d,e]" and o: "a \<ge> b" "b \<ge> c" "c \<ge> d" "d \<ge> e"
    and m: "mset (hand_vals h) = {#a,b,c,d,e#}" by blast
  have "mset (hand_vals h) = mset [a,b,c,d,e]" using m by simp
  then have "one_pair_of p [a,b,c,d,e]" using assms(3) one_pair_of_mset by blast
  from one_pair_sorted[OF o this] show ?thesis
    using evaluate_valid[of h] r assms(2) s by (simp add: sort_desc_filter)
qed

lemma lex_first_difference:
  assumes "length xs = length ys"
  shows "lexicographical_compare ys xs \<longleftrightarrow>
           (\<exists>i<length xs. take i xs = take i ys \<and> ys ! i < xs ! i)"
  using assms
proof (induction xs ys rule: list_induct2)
  case Nil
  then show ?case by simp
next
  case (Cons x xs y ys)
  have "(\<exists>i<length (x # xs). take i (x # xs) = take i (y # ys) \<and> (y # ys) ! i < (x # xs) ! i)
        \<longleftrightarrow> (y < x \<or> (x = y \<and> (\<exists>j<length xs. take j xs = take j ys \<and> ys ! j < xs ! j)))"
    (is "?L \<longleftrightarrow> ?R")
  proof
    assume ?L
    then obtain i where i: "i < length (x # xs)" "take i (x # xs) = take i (y # ys)"
      "(y # ys) ! i < (x # xs) ! i" by blast
    show ?R
    proof (cases i)
      case 0
      then show ?thesis using i by simp
    next
      case (Suc j)
      then show ?thesis using i by auto
    qed
  next
    assume ?R
    then consider "y < x" | j where "x = y" "j < length xs" "take j xs = take j ys" "ys ! j < xs ! j"
      by blast
    then show ?L
    proof cases
      case 1
      then show ?thesis by (intro exI[of _ 0]) simp
    next
      case 2
      then show ?thesis by (intro exI[of _ "Suc j"]) simp
    qed
  qed
  then show ?case using Cons.IH by auto
qed

lemma hand_vals_set: "set (hand_vals h) = rank_val ` set (map rank h)"
  by (auto simp: hand_vals_def)


section \<open>Claims about the hand evaluator\<close>

text \<open>
  C1. A hand of five different cards with the ranks A, 2, 3, 4, 5 and not all of one suit
  evaluates to category 5 with straight high 5 (not 14), and this value is strictly below
  the value of every hand with the ranks 2, 3, 4, 5, 6, which is a six-high straight or
  straight flush.
\<close>

theorem wheel_straight:
  assumes "valid_hand w" "set (map rank w) = set ''A2345''" "\<not> same_suit w"
      and "valid_hand s" "set (map rank s) = set ''23456''"
  shows "evaluate5CardHand w = Inr [5, 5]
         \<and> (\<exists>v. evaluate5CardHand s = Inr v \<and> (v = [5, 6] \<or> v = [9, 6])
                \<and> isBetterHand v [5, 5] \<and> \<not> isBetterHand [5, 5] v)"
proof -
  note rw = valid_hand_ranks[OF assms(1)] and rs = valid_hand_ranks[OF assms(4)]
  have "set (hand_vals w) = set [2,3,4,5,14]"
    unfolding hand_vals_set assms(2) by (auto simp: rank_val_def RANK_VALUES_def)
  moreover have "length (hand_vals w) = length [2,3,4,5,14::int]" using rw by (simp add: hand_vals_def)
  ultimately have "sort_desc (hand_vals w) = rev [2,3,4,5,14]"
    by (intro sort_desc_unique) auto
  then have sw: "sort_desc (hand_vals w) = [14,5,4,3,2]" by simp
  have ew: "evaluate5CardHand w = Inr [5, 5]"
    using evaluate_valid[of w] rw assms(3) unfolding sw by (simp add: hv_cases)
  have "set (hand_vals s) = set [2,3,4,5,6]"
    unfolding hand_vals_set assms(5) by (auto simp: rank_val_def RANK_VALUES_def)
  moreover have "length (hand_vals s) = length [2,3,4,5,6::int]" using rs by (simp add: hand_vals_def)
  ultimately have "sort_desc (hand_vals s) = rev [2,3,4,5,6]"
    by (intro sort_desc_unique) auto
  then have ss: "sort_desc (hand_vals s) = [6,5,4,3,2]" by simp
  have es: "evaluate5CardHand s = Inr (if same_suit s then [9, 6] else [5, 6])"
    using evaluate_valid[of s] rs unfolding ss by (simp add: hv_cases)
  show ?thesis using ew es by (simp add: isBetterHand_def)
qed

theorem wheel_straight_witness:
  "valid_hand (map card_named [''Ah'', ''2d'', ''3c'', ''4s'', ''5h''])
   \<and> set (map rank (map card_named [''Ah'', ''2d'', ''3c'', ''4s'', ''5h''])) = set ''A2345''
   \<and> \<not> same_suit (map card_named [''Ah'', ''2d'', ''3c'', ''4s'', ''5h''])
   \<and> valid_hand (map card_named [''2h'', ''3h'', ''4h'', ''5h'', ''6d''])
   \<and> set (map rank (map card_named [''2h'', ''3h'', ''4h'', ''5h'', ''6d''])) = set ''23456''
   \<and> evaluate5CardHand (map card_named [''Ah'', ''2d'', ''3c'', ''4s'', ''5h'']) = Inr [5, 5]
   \<and> evaluate5CardHand (map card_named [''2h'', ''3h'', ''4h'', ''5h'', ''6d'']) = Inr [5, 6]
   \<and> isBetterHand [5, 6] [5, 5]"
proof -
  have h1: "valid_hand (map card_named [''Ah'', ''2d'', ''3c'', ''4s'', ''5h''])" by code_simp
  have h2: "set (map rank (map card_named [''Ah'', ''2d'', ''3c'', ''4s'', ''5h''])) = set ''A2345''"
    by (auto simp: card_named_def)
  have h3: "\<not> same_suit (map card_named [''Ah'', ''2d'', ''3c'', ''4s'', ''5h''])" by code_simp
  have h4: "valid_hand (map card_named [''2h'', ''3h'', ''4h'', ''5h'', ''6d''])" by code_simp
  have h5: "set (map rank (map card_named [''2h'', ''3h'', ''4h'', ''5h'', ''6d''])) = set ''23456''"
    by (auto simp: card_named_def)
  have e: "evaluate5CardHand (map card_named [''2h'', ''3h'', ''4h'', ''5h'', ''6d'']) = Inr [5, 6]"
    by code_simp
  have b: "isBetterHand [5, 6] [5, 5]" by (simp add: isBetterHand_def)
  from wheel_straight[OF h1 h2 h3 h4 h5] h1 h2 h3 h4 h5 e b show ?thesis by blast
qed

text \<open>
  C2. The comparison is lexicographic with the category first: when the poker category of
  a valid hand is strictly higher than that of another valid hand, \<^verbatim>\<open>isBetterHand\<close> holds
  of their two values (and not the other way round), whatever the tiebreak elements are.
  The category is \<open>hand_category\<close>, the class of the hand by the poker rules.
\<close>

theorem category_dominance:
  assumes "valid_hand h1" "valid_hand h2" "hand_category h2 < hand_category h1"
  shows "\<exists>v1 v2. evaluate5CardHand h1 = Inr v1 \<and> evaluate5CardHand h2 = Inr v2
            \<and> isBetterHand v1 v2 \<and> \<not> isBetterHand v2 v1"
proof -
  from valid_hand_ranks[OF assms(1)] obtain v1 where
    v1: "evaluate5CardHand h1 = Inr v1" "v1 \<noteq> []" "hd v1 = hand_category h1"
    using eval_category_length by blast
  from valid_hand_ranks[OF assms(2)] obtain v2 where
    v2: "evaluate5CardHand h2 = Inr v2" "v2 \<noteq> []" "hd v2 = hand_category h2"
    using eval_category_length by blast
  obtain x xs where c1: "v1 = x # xs" using v1(2) by (cases v1) auto
  obtain y ys where c2: "v2 = y # ys" using v2(2) by (cases v2) auto
  have "y < x" using assms(3) v1(3) v2(3) c1 c2 by simp
  then have "isBetterHand v1 v2 \<and> \<not> isBetterHand v2 v1"
    unfolding isBetterHand_def c1 c2 by (rule lex_head)
  with v1(1) v2(1) show ?thesis by blast
qed

theorem category_dominance_witness:
  "valid_hand (map card_named [''2h'', ''2d'', ''2c'', ''5h'', ''5d''])
   \<and> valid_hand (map card_named [''Ah'', ''Ad'', ''Kc'', ''Kh'', ''Qd''])
   \<and> hand_category (map card_named [''Ah'', ''Ad'', ''Kc'', ''Kh'', ''Qd''])
       < hand_category (map card_named [''2h'', ''2d'', ''2c'', ''5h'', ''5d''])
   \<and> (\<exists>v1 v2. evaluate5CardHand (map card_named [''2h'', ''2d'', ''2c'', ''5h'', ''5d'']) = Inr v1
         \<and> evaluate5CardHand (map card_named [''Ah'', ''Ad'', ''Kc'', ''Kh'', ''Qd'']) = Inr v2
         \<and> isBetterHand v1 v2 \<and> \<not> isBetterHand v2 v1)"
proof -
  have h1: "valid_hand (map card_named [''2h'', ''2d'', ''2c'', ''5h'', ''5d''])" by code_simp
  have h2: "valid_hand (map card_named [''Ah'', ''Ad'', ''Kc'', ''Kh'', ''Qd''])" by code_simp
  have c1: "hand_category (map card_named [''2h'', ''2d'', ''2c'', ''5h'', ''5d'']) = 7" by code_simp
  have c2: "hand_category (map card_named [''Ah'', ''Ad'', ''Kc'', ''Kh'', ''Qd'']) = 3" by code_simp
  have h3: "hand_category (map card_named [''Ah'', ''Ad'', ''Kc'', ''Kh'', ''Qd''])
       < hand_category (map card_named [''2h'', ''2d'', ''2c'', ''5h'', ''5d''])"
    unfolding c1 c2 by simp
  from category_dominance[OF h1 h2 h3] h1 h2 h3 show ?thesis by blast
qed

text \<open>
  C9. A valid hand with exactly one pair, of value \<open>p\<close>, no larger group and no flush
  (a straight is impossible with a pair) evaluates to category 2, then \<open>p\<close>, then the three
  other values in descending order. Two such hands with the same pair value are ordered by
  their kickers: the first is better exactly when, at the first position where the kicker
  lists differ, its kicker is the larger.
\<close>

theorem one_pair_value:
  assumes "valid_hand h1" "\<not> same_suit h1" "one_pair_of p (hand_vals h1)"
      and "valid_hand h2" "\<not> same_suit h2" "one_pair_of p (hand_vals h2)"
  shows "\<exists>k1 k2.
           k1 = sort_desc (filter (\<lambda>v. v \<noteq> p) (hand_vals h1)) \<and> length k1 = 3
         \<and> k2 = sort_desc (filter (\<lambda>v. v \<noteq> p) (hand_vals h2)) \<and> length k2 = 3
         \<and> evaluate5CardHand h1 = Inr (2 # p # k1)
         \<and> evaluate5CardHand h2 = Inr (2 # p # k2)
         \<and> (isBetterHand (2 # p # k1) (2 # p # k2)
              \<longleftrightarrow> (\<exists>i<3. take i k1 = take i k2 \<and> k2 ! i < k1 ! i))"
proof -
  define k1 where "k1 = sort_desc (filter (\<lambda>v. v \<noteq> p) (hand_vals h1))"
  define k2 where "k2 = sort_desc (filter (\<lambda>v. v \<noteq> p) (hand_vals h2))"
  have e1: "evaluate5CardHand h1 = Inr (2 # p # k1)" and l1: "length k1 = 3"
    using one_pair_eval[OF assms(1-3)] by (simp_all add: k1_def)
  have e2: "evaluate5CardHand h2 = Inr (2 # p # k2)" and l2: "length k2 = 3"
    using one_pair_eval[OF assms(4-6)] by (simp_all add: k2_def)
  have "isBetterHand (2 # p # k1) (2 # p # k2) \<longleftrightarrow> lexicographical_compare k2 k1"
    by (simp add: isBetterHand_def)
  also have "\<dots> \<longleftrightarrow> (\<exists>i<3. take i k1 = take i k2 \<and> k2 ! i < k1 ! i)"
    using lex_first_difference[of k1 k2] l1 l2 by simp
  finally show ?thesis using e1 e2 l1 l2 k1_def k2_def by blast
qed

theorem one_pair_value_witness:
  "valid_hand (map card_named [''Ah'', ''Ad'', ''Kc'', ''Qh'', ''Jd''])
   \<and> \<not> same_suit (map card_named [''Ah'', ''Ad'', ''Kc'', ''Qh'', ''Jd''])
   \<and> one_pair_of 14 (hand_vals (map card_named [''Ah'', ''Ad'', ''Kc'', ''Qh'', ''Jd'']))
   \<and> valid_hand (map card_named [''Ac'', ''As'', ''2c'', ''3h'', ''4d''])
   \<and> \<not> same_suit (map card_named [''Ac'', ''As'', ''2c'', ''3h'', ''4d''])
   \<and> one_pair_of 14 (hand_vals (map card_named [''Ac'', ''As'', ''2c'', ''3h'', ''4d'']))
   \<and> evaluate5CardHand (map card_named [''Ah'', ''Ad'', ''Kc'', ''Qh'', ''Jd'']) = Inr [2, 14, 13, 12, 11]
   \<and> evaluate5CardHand (map card_named [''Ac'', ''As'', ''2c'', ''3h'', ''4d'']) = Inr [2, 14, 4, 3, 2]
   \<and> isBetterHand [2, 14, 13, 12, 11] [2, 14, 4, 3, 2]"
proof -
  have h1: "valid_hand (map card_named [''Ah'', ''Ad'', ''Kc'', ''Qh'', ''Jd''])" by code_simp
  have h2: "\<not> same_suit (map card_named [''Ah'', ''Ad'', ''Kc'', ''Qh'', ''Jd''])" by code_simp
  have h3: "one_pair_of 14 (hand_vals (map card_named [''Ah'', ''Ad'', ''Kc'', ''Qh'', ''Jd'']))"
    by code_simp
  have h4: "valid_hand (map card_named [''Ac'', ''As'', ''2c'', ''3h'', ''4d''])" by code_simp
  have h5: "\<not> same_suit (map card_named [''Ac'', ''As'', ''2c'', ''3h'', ''4d''])" by code_simp
  have h6: "one_pair_of 14 (hand_vals (map card_named [''Ac'', ''As'', ''2c'', ''3h'', ''4d'']))"
    by code_simp
  have k1: "sort_desc (filter (\<lambda>v. v \<noteq> 14)
              (hand_vals (map card_named [''Ah'', ''Ad'', ''Kc'', ''Qh'', ''Jd'']))) = [13, 12, 11]"
    by code_simp
  have k2: "sort_desc (filter (\<lambda>v. v \<noteq> 14)
              (hand_vals (map card_named [''Ac'', ''As'', ''2c'', ''3h'', ''4d'']))) = [4, 3, 2]"
    by code_simp
  have b: "isBetterHand [2, 14, 13, 12, 11] [2, 14, 4, 3, 2]" by (simp add: isBetterHand_def)
  from one_pair_value[OF h1 h2 h3 h4 h5 h6] h1 h2 h3 h4 h5 h6 b show ?thesis
    unfolding k1 k2 by blast
qed

text \<open>
  C10. The value of a valid hand has its poker category as first element and a length
  fixed by that category (2 for categories 9 and 5, 3 for 8 and 7, 4 for 4 and 3, 5 for 2,
  6 for 6 and 1). So the values of two valid hands of the same category have the same
  length, and neither value is a proper prefix of the other.
\<close>

theorem value_length_by_category:
  assumes "valid_hand h1" "valid_hand h2"
  shows "\<exists>v1 v2. evaluate5CardHand h1 = Inr v1 \<and> evaluate5CardHand h2 = Inr v2
            \<and> hd v1 = hand_category h1 \<and> hd v2 = hand_category h2
            \<and> length v1 = length_of_category (hand_category h1)
            \<and> length v2 = length_of_category (hand_category h2)
            \<and> (hand_category h1 = hand_category h2 \<longrightarrow> length v1 = length v2)
            \<and> \<not> strict_prefix v1 v2 \<and> \<not> strict_prefix v2 v1"
proof -
  from valid_hand_ranks[OF assms(1)] obtain v1 where
    v1: "evaluate5CardHand h1 = Inr v1" "v1 \<noteq> []" "hd v1 = hand_category h1"
      "length v1 = length_of_category (hd v1)"
    using eval_category_length by blast
  from valid_hand_ranks[OF assms(2)] obtain v2 where
    v2: "evaluate5CardHand h2 = Inr v2" "v2 \<noteq> []" "hd v2 = hand_category h2"
      "length v2 = length_of_category (hd v2)"
    using eval_category_length by blast
  have same: "hd v1 = hd v2 \<Longrightarrow> length v1 = length v2" using v1(4) v2(4) by simp
  have np: "\<not> strict_prefix u w" if "u \<noteq> []" "hd u = hd w \<Longrightarrow> length u = length w" for u w :: "int list"
  proof
    assume sp: "strict_prefix u w"
    then obtain zs where w: "w = u @ zs" "zs \<noteq> []" by (auto simp: strict_prefix_def prefix_def)
    then have "hd u = hd w" using that(1) by simp
    then have "length u = length w" by (rule that(2))
    then show False using w by simp
  qed
  have "\<not> strict_prefix v1 v2" using np[OF v1(2) same] by simp
  moreover have "\<not> strict_prefix v2 v1" using np[OF v2(2)] same by simp
  ultimately show ?thesis using v1 v2 by auto
qed

theorem value_length_by_category_witness:
  "valid_hand (map card_named [''2h'', ''2d'', ''2c'', ''5h'', ''5d''])
   \<and> valid_hand (map card_named [''Ah'', ''Ad'', ''Kc'', ''Kh'', ''Qd''])
   \<and> evaluate5CardHand (map card_named [''2h'', ''2d'', ''2c'', ''5h'', ''5d'']) = Inr [7, 2, 5]
   \<and> evaluate5CardHand (map card_named [''Ah'', ''Ad'', ''Kc'', ''Kh'', ''Qd'']) = Inr [3, 14, 13, 12]
   \<and> length_of_category (hand_category (map card_named [''2h'', ''2d'', ''2c'', ''5h'', ''5d''])) = 3
   \<and> length_of_category (hand_category (map card_named [''Ah'', ''Ad'', ''Kc'', ''Kh'', ''Qd''])) = 4"
proof -
  have h1: "valid_hand (map card_named [''2h'', ''2d'', ''2c'', ''5h'', ''5d''])" by code_simp
  have h2: "valid_hand (map card_named [''Ah'', ''Ad'', ''Kc'', ''Kh'', ''Qd''])" by code_simp
  have e1: "evaluate5CardHand (map card_named [''2h'', ''2d'', ''2c'', ''5h'', ''5d'']) = Inr [7, 2, 5]"
    by code_simp
  have e2: "evaluate5CardHand (map card_named [''Ah'', ''Ad'', ''Kc'', ''Kh'', ''Qd'']) = Inr [3, 14, 13, 12]"
    by code_simp
  from value_length_by_category[OF h1 h2] h1 h2 e1 e2 show ?thesis by auto
qed

section \<open>The deck\<close>

lemma buildDeck_filter: "buildDeck exclude = filter (\<lambda>c. c \<notin> set exclude) (buildDeck [])"
proof -
  have inner: "concat (map (\<lambda>s. if f s \<notin> set exclude then [f s] else []) ss)
                = filter (\<lambda>c. c \<notin> set exclude) (map f ss)" for f :: "char \<Rightarrow> Card" and ss
    by (induction ss) auto
  show ?thesis
    unfolding buildDeck_def Let_def
    by (simp add: filter_concat inner comp_def)
qed

lemma full_deck_distinct: "distinct (buildDeck [])"
  by code_simp

lemma full_deck_length: "length (buildDeck []) = 52"
  by code_simp

lemma full_deck_set: "set (buildDeck []) = {c. valid_card c}"
proof -
  have "c \<in> set (buildDeck []) \<longleftrightarrow> valid_card c" for c :: Card
  proof -
    have "c \<in> set (buildDeck []) \<longleftrightarrow> (\<exists>r\<in>set RANKS. \<exists>s\<in>set SUITS. c = \<lparr>rank = r, suit = s\<rparr>)"
      unfolding buildDeck_def Let_def by auto
    also have "\<dots> \<longleftrightarrow> rank c \<in> set RANKS \<and> suit c \<in> set SUITS"
      by (cases c) auto
    finally show ?thesis by (simp add: valid_card_def)
  qed
  then show ?thesis by blast
qed

lemma valid_cards_52: "card {c. valid_card c} = 52"
  using distinct_card[OF full_deck_distinct] full_deck_length full_deck_set by simp

lemma buildDeck_distinct: "distinct (buildDeck exclude)"
  unfolding buildDeck_filter[of exclude] using full_deck_distinct by simp

lemma buildDeck_set: "set (buildDeck exclude) = {c. valid_card c} - set exclude"
  unfolding buildDeck_filter[of exclude] using full_deck_set by auto

lemma buildDeck_length:
  assumes "distinct hero" "\<forall>c\<in>set hero. valid_card c"
  shows "length (buildDeck hero) = 52 - length hero"
proof -
  have "length (buildDeck hero) = card (set (buildDeck hero))"
    using distinct_card[OF buildDeck_distinct] by simp
  also have "\<dots> = card ({c. valid_card c} - set hero)" by (simp add: buildDeck_set)
  also have "\<dots> = card {c. valid_card c} - card (set hero)"
    using assms(2) by (intro card_Diff_subset) auto
  also have "\<dots> = 52 - length hero" using distinct_card[OF assms(1)] valid_cards_52 by simp
  finally show ?thesis .
qed

section \<open>The comparison and the enumeration of five-card subsets\<close>

text \<open>
  \<^verbatim>\<open>lexicographical_compare\<close> is the strict lexicographic order on lists of integers, so
  it is a linear order. The loops visit exactly the strictly ascending index tuples below 7.
\<close>

lemma lex_less: "lexicographical_compare xs ys \<longleftrightarrow> xs < ys"
  by (induction xs ys rule: lexicographical_compare.induct) auto

lemma isBetterHand_less: "isBetterHand v w \<longleftrightarrow> w < v"
  by (simp add: isBetterHand_def lex_less)

lemma loop_indices_bounds:
  "idx \<in> set loop_indices \<longleftrightarrow>
     (\<exists>i j k l m. idx = [i, j, k, l, m] \<and> i < 3 \<and> i < j \<and> j < 4 \<and> j < k \<and> k < 5
        \<and> k < l \<and> l < 6 \<and> l < m \<and> m < 7)"
proof -
  have c: "x \<in> set (concat (map f [a ..< b])) \<longleftrightarrow> (\<exists>i. a \<le> i \<and> i < b \<and> x \<in> set (f i))"
    for x :: "nat list" and f a b by auto
  have m: "x \<in> set (map g [a ..< b]) \<longleftrightarrow> (\<exists>i. a \<le> i \<and> i < b \<and> x = g i)"
    for x :: "nat list" and g a b by auto
  show ?thesis
    unfolding loop_indices_def c m by (simp add: Suc_le_eq) blast
qed

lemma loop_indices_iff:
  "idx \<in> set loop_indices \<longleftrightarrow>
     (\<exists>i j k l m. idx = [i, j, k, l, m] \<and> i < j \<and> j < k \<and> k < l \<and> l < m \<and> m < 7)"
proof
  assume "idx \<in> set loop_indices"
  then show "\<exists>i j k l m. idx = [i, j, k, l, m] \<and> i < j \<and> j < k \<and> k < l \<and> l < m \<and> m < 7"
    unfolding loop_indices_bounds by blast
next
  assume "\<exists>i j k l m. idx = [i, j, k, l, m] \<and> i < j \<and> j < k \<and> k < l \<and> l < m \<and> m < 7"
  then obtain i j k l m where
    h: "idx = [i, j, k, l, m]" "i < j" "j < k" "k < l" "l < m" "m < 7" by blast
  then have "i < 3" "j < 4" "k < 5" "l < 6" by simp_all
  with h show "idx \<in> set loop_indices" unfolding loop_indices_bounds by blast
qed

lemma loop_indices_length: "length loop_indices = 21"
  by code_simp

lemma loop_indices_distinct: "distinct loop_indices"
  by code_simp

lemma ascending5:
  assumes "sorted js" "distinct js" "length js = 5" "\<forall>j\<in>set js. j < (n::nat)"
  shows "\<exists>i j k l m. js = [i, j, k, l, m] \<and> i < j \<and> j < k \<and> k < l \<and> l < m \<and> m < n"
proof -
  obtain i j k l m where js: "js = [i, j, k, l, m]" using list5[OF assms(3)] by blast
  show ?thesis using assms(1,2,4) unfolding js by (auto simp: less_le)
qed

lemma subset_indices:
  "set five \<subseteq> set seven \<Longrightarrow> \<exists>js. five = map ((!) seven) js \<and> (\<forall>j\<in>set js. j < length seven)"
proof (induction five)
  case Nil
  then show ?case by simp
next
  case (Cons x five)
  then obtain js where js: "five = map ((!) seven) js" "\<forall>j\<in>set js. j < length seven" by auto
  from Cons.prems obtain j where j: "j < length seven" "seven ! j = x"
    by (auto simp: in_set_conv_nth)
  have "x # five = map ((!) seven) (j # js) \<and> (\<forall>i\<in>set (j # js). i < length seven)"
    using js j by simp
  then show ?case by (rule exI[of _ "j # js"])
qed

lemma subset_covered:
  assumes "length seven = 7" "five_card_subset five seven"
  shows "\<exists>idx\<in>set loop_indices. mset (map ((!) seven) idx) = mset five"
proof -
  from assms(2) have f: "length five = 5" "distinct five" "set five \<subseteq> set seven"
    by (simp_all add: five_card_subset_def)
  from subset_indices[OF f(3)] obtain js where
    js: "five = map ((!) seven) js" "\<forall>j\<in>set js. j < length seven" by blast
  have d: "distinct js" using f(2) unfolding js(1) by (simp add: distinct_map)
  have l: "length js = 5" using f(1) js(1) by simp
  have "\<exists>i j k l m. sort js = [i, j, k, l, m] \<and> i < j \<and> j < k \<and> k < l \<and> l < m \<and> m < 7"
    using d l js(2) assms(1) by (intro ascending5) auto
  then have "sort js \<in> set loop_indices" by (simp add: loop_indices_iff)
  moreover have "mset (map ((!) seven) (sort js)) = mset five"
    unfolding js(1) by simp
  ultimately show ?thesis by blast
qed

lemma index_subset:
  assumes "length seven = 7" "distinct seven" "idx \<in> set loop_indices"
  shows "five_card_subset (map ((!) seven) idx) seven"
proof -
  from assms(3) obtain i j k l m where
    idx: "idx = [i, j, k, l, m]" and o: "i < j" "j < k" "k < l" "l < m" "m < 7"
    unfolding loop_indices_iff by blast
  have "distinct idx" "\<forall>x\<in>set idx. x < length seven" using o assms(1) unfolding idx by auto
  then show ?thesis
    unfolding five_card_subset_def using assms(2) idx
    by (auto simp: distinct_map inj_on_def nth_eq_iff_index_eq)
qed

lemma evaluate_mset:
  assumes "length cs = 5" "\<forall>c\<in>set cs. rank c \<in> set RANKS" "mset cs = mset cs'"
  shows "evaluate5CardHand cs = evaluate5CardHand cs'"
proof -
  have s: "set cs = set cs'" using assms(3) by (rule mset_eq_setD)
  have l: "length cs' = 5" using assms(1,3) by (metis size_mset)
  have "mset (hand_vals cs) = mset (hand_vals cs')"
    unfolding hand_vals_def using assms(3) by (metis mset_map)
  then have "sort (hand_vals cs') = sort (hand_vals cs)"
    by (intro properties_for_sort) simp_all
  then have "sort_desc (hand_vals cs) = sort_desc (hand_vals cs')" by (simp add: sort_desc_def)
  moreover have "same_suit cs = same_suit cs'" by (simp add: same_suit_def s)
  ultimately show ?thesis
    using evaluate_valid[OF assms(1,2)] evaluate_valid[OF l] assms(2) s by simp
qed

lemma best_loop_max:
  assumes "\<forall>idx\<in>set idxs. \<exists>v. evaluate5CardHand (map ((!) seven) idx) = Inr v"
  shows "\<exists>b. best_loop seven idxs (b0, first) = Inr (b, first \<and> idxs = [])
            \<and> (if first \<and> idxs = [] then b = b0
                else (b = b0 \<and> \<not> first \<or> (\<exists>idx\<in>set idxs. evaluate5CardHand (map ((!) seven) idx) = Inr b))
                   \<and> (\<not> first \<longrightarrow> b0 \<le> b)
                   \<and> (\<forall>idx\<in>set idxs. \<forall>v. evaluate5CardHand (map ((!) seven) idx) = Inr v \<longrightarrow> v \<le> b))"
  using assms
proof (induction idxs arbitrary: b0 first)
  case Nil
  then show ?case by simp
next
  case (Cons idx rest)
  from Cons.prems obtain val where val: "evaluate5CardHand (map ((!) seven) idx) = Inr val" by auto
  define b1 where "b1 = (if first \<or> isBetterHand val b0 then val else b0)"
  have step: "best_loop seven (idx # rest) (b0, first) = best_loop seven rest (b1, False)"
    using val by (simp add: b1_def)
  from Cons.prems have "\<forall>i\<in>set rest. \<exists>v. evaluate5CardHand (map ((!) seven) i) = Inr v" by simp
  from Cons.IH[OF this, of b1 False] obtain b where
    b: "best_loop seven rest (b1, False) = Inr (b, False)"
       "b = b1 \<or> (\<exists>i\<in>set rest. evaluate5CardHand (map ((!) seven) i) = Inr b)"
       "b1 \<le> b"
       "\<forall>i\<in>set rest. \<forall>v. evaluate5CardHand (map ((!) seven) i) = Inr v \<longrightarrow> v \<le> b"
    by auto
  have v: "val \<le> b1" and v0: "\<not> first \<Longrightarrow> b0 \<le> b1"
    unfolding b1_def by (auto simp: isBetterHand_less)
  have m: "b1 = val \<or> (b1 = b0 \<and> \<not> first)" unfolding b1_def by auto
  have 1: "b = b0 \<and> \<not> first \<or> (\<exists>i\<in>set (idx # rest). evaluate5CardHand (map ((!) seven) i) = Inr b)"
    using b(2) m val by auto
  have 2: "\<not> first \<longrightarrow> b0 \<le> b" using v0 b(3) by auto
  have 3: "\<forall>i\<in>set (idx # rest). \<forall>w. evaluate5CardHand (map ((!) seven) i) = Inr w \<longrightarrow> w \<le> b"
    using b(4) b(3) v val by auto
  show ?case unfolding step using b(1) 1 2 3 by simp
qed

lemma five_card_subset_sets:
  assumes "length (seven :: Card list) = 7" "distinct seven"
  shows "(\<lambda>idx. set (map ((!) seven) idx)) ` set loop_indices = {S. S \<subseteq> set seven \<and> card S = 5}"
proof (intro equalityI subsetI)
  fix S assume "S \<in> (\<lambda>idx. set (map ((!) seven) idx)) ` set loop_indices"
  then obtain idx where idx: "idx \<in> set loop_indices" "S = set (map ((!) seven) idx)" by blast
  from index_subset[OF assms idx(1)] have "five_card_subset (map ((!) seven) idx) seven" .
  then show "S \<in> {S. S \<subseteq> set seven \<and> card S = 5}"
    unfolding idx(2) five_card_subset_def using distinct_card by fastforce
next
  fix S assume "S \<in> {S. S \<subseteq> set seven \<and> card S = 5}"
  then have S: "S \<subseteq> set seven" "card S = 5" by simp_all
  then have "finite S" using finite_subset by blast
  then obtain five where five: "set five = S" "distinct five" using finite_distinct_list by blast
  then have "length five = 5" using S(2) distinct_card by fastforce
  then have "five_card_subset five seven" using five S(1) by (simp add: five_card_subset_def)
  from subset_covered[OF assms(1) this] obtain idx where
    "idx \<in> set loop_indices" "mset (map ((!) seven) idx) = mset five" by blast
  then have "idx \<in> set loop_indices" "set (map ((!) seven) idx) = S"
    using five(1) mset_eq_setD by blast+
  then show "S \<in> (\<lambda>idx. set (map ((!) seven) idx)) ` set loop_indices" by blast
qed

lemma loop_subsets_distinct:
  assumes "length (seven :: Card list) = 7" "distinct seven"
  shows "distinct (map (\<lambda>idx. set (map ((!) seven) idx)) loop_indices)"
proof -
  have "inj_on (\<lambda>idx. set (map ((!) seven) idx)) (set loop_indices)"
  proof (rule inj_onI)
    fix a b assume a: "a \<in> set loop_indices" and b: "b \<in> set loop_indices"
      and e: "set (map ((!) seven) a) = set (map ((!) seven) b)"
    have sa: "sorted a \<and> distinct a \<and> set a \<subseteq> {..<length seven}"
      using a assms(1) unfolding loop_indices_iff by auto
    have sb: "sorted b \<and> distinct b \<and> set b \<subseteq> {..<length seven}"
      using b assms(1) unfolding loop_indices_iff by auto
    have inj: "inj_on ((!) seven) {..<length seven}"
      using assms(2) by (auto simp: inj_on_def nth_eq_iff_index_eq)
    have "(!) seven ` set a = (!) seven ` set b" using e by simp
    then have "set a = set b" using inj sa sb by (meson inj_on_image_eq_iff)
    then show "a = b" using sa sb sorted_distinct_set_unique by blast
  qed
  then show ?thesis using loop_indices_distinct by (simp add: distinct_map)
qed

lemma bestHandValue_total:
  assumes "length seven = 7" "\<forall>c\<in>set seven. valid_card c"
  shows "\<exists>v. bestHandValue seven = Inr v"
proof -
  have "\<exists>v. evaluate5CardHand (map ((!) seven) idx) = Inr v" if "idx \<in> set loop_indices" for idx
  proof -
    from that obtain i j k l m where
      idx: "idx = [i, j, k, l, m]" and o: "i < j" "j < k" "k < l" "l < m" "m < 7"
      unfolding loop_indices_iff by blast
    have "\<forall>x\<in>set idx. x < length seven" using o assms(1) unfolding idx by auto
    then have "\<forall>c\<in>set (map ((!) seven) idx). rank c \<in> set RANKS"
      using assms(2) by (auto simp: valid_card_def)
    moreover have "length (map ((!) seven) idx) = 5" unfolding idx by simp
    ultimately show ?thesis using evaluate_valid by blast
  qed
  then have "\<forall>idx\<in>set loop_indices. \<exists>v. evaluate5CardHand (map ((!) seven) idx) = Inr v" by blast
  from best_loop_max[OF this, of "[]" True] obtain b fl where
    "best_loop seven loop_indices ([], True) = Inr (b, fl)" by blast
  then show ?thesis unfolding bestHandValue_def using assms(1) by simp
qed

section \<open>The simulation loop\<close>

lemma shuffled_deck:
  assumes "valid_hero hero" "mset deck = mset (buildDeck hero)"
  shows "distinct deck" "set deck = {c. valid_card c} - set hero" "length deck = 50"
proof -
  from assms(1) have h: "length hero = 2" "distinct hero" "\<forall>c\<in>set hero. valid_card c"
    by (simp_all add: valid_hero_def)
  show "distinct deck" using assms(2) buildDeck_distinct[of hero] by (metis mset_eq_imp_distinct_iff)
  show "set deck = {c. valid_card c} - set hero"
    using mset_eq_setD[OF assms(2)] buildDeck_set[of hero] by simp
  have "length deck = length (buildDeck hero)" using assms(2) by (metis size_mset)
  then show "length deck = 50" using buildDeck_length[OF h(2,3)] h(1) by simp
qed

lemma deal_take:
  assumes "7 \<le> length deck"
  shows "deal hero deck = (take 2 deck, take 5 (drop 2 deck), hero @ take 5 (drop 2 deck),
                           take 2 deck @ take 5 (drop 2 deck))"
    and "take 2 deck @ take 5 (drop 2 deck) = take 7 deck"
proof -
  obtain a b rest where deck: "deck = a # b # rest"
    using assms by (cases deck; cases "tl deck") auto
  have t2: "take 2 deck = [deck ! 0, deck ! 1]"
    unfolding deck by simp
  show "deal hero deck = (take 2 deck, take 5 (drop 2 deck), hero @ take 5 (drop 2 deck),
                           take 2 deck @ take 5 (drop 2 deck))"
    unfolding deal_def Let_def t2 by simp
  have "take 7 deck = take (2 + 5) deck" by simp
  also have "\<dots> = take 2 deck @ take 5 (drop 2 deck)" by (rule take_add)
  finally show "take 2 deck @ take 5 (drop 2 deck) = take 7 deck" by simp
qed

lemma trial_result:
  assumes "valid_hero hero" "permuting shuffle"
  shows "\<exists>hv ov. trial_values shuffle hero gen = (Inr hv, Inr ov)
           \<and> trial shuffle hero gen = Inr (compare_values hv ov, snd (shuffle gen (buildDeck hero)))"
proof -
  define deck where "deck = fst (shuffle gen (buildDeck hero))"
  have m: "mset deck = mset (buildDeck hero)" using assms(2) by (simp add: deck_def permuting_def)
  note d = shuffled_deck[OF assms(1) m]
  have l: "7 \<le> length deck" using d(3) by simp
  define board where "board = take 5 (drop 2 deck)"
  have dl: "deal hero deck = (take 2 deck, board, hero @ board, take 2 deck @ board)"
    unfolding board_def by (rule deal_take(1)[OF l])
  from assms(1) have h: "length hero = 2" "\<forall>c\<in>set hero. valid_card c"
    by (simp_all add: valid_hero_def)
  have vd: "\<forall>c\<in>set deck. valid_card c" using d(2) by simp
  have vb: "\<forall>c\<in>set board. valid_card c"
    unfolding board_def using vd by (meson in_set_dropD in_set_takeD)
  have vo: "\<forall>c\<in>set (take 2 deck). valid_card c" using vd by (meson in_set_takeD)
  have lb: "length board = 5" unfolding board_def using l by simp
  have "\<exists>v. bestHandValue (hero @ board) = Inr v"
    using h vb lb by (intro bestHandValue_total) auto
  then obtain hv where hv: "bestHandValue (hero @ board) = Inr hv" by blast
  have "\<exists>v. bestHandValue (take 2 deck @ board) = Inr v"
    using vo vb lb l by (intro bestHandValue_total) auto
  then obtain ov where ov: "bestHandValue (take 2 deck @ board) = Inr ov" by blast
  have tv: "trial_values shuffle hero gen = (Inr hv, Inr ov)"
    unfolding trial_values_def deck_def[symmetric] dl using hv ov by simp
  have "trial shuffle hero gen = Inr (compare_values hv ov, snd (shuffle gen (buildDeck hero)))"
    unfolding trial_def using l hv ov dl by (simp add: deck_def case_prod_unfold)
  with tv show ?thesis by blast
qed

lemma compare_values_cases:
  "(compare_values hv ov = Win \<longleftrightarrow> isBetterHand hv ov)
   \<and> (compare_values hv ov = Tie \<longleftrightarrow> hv = ov)
   \<and> (compare_values hv ov = Loss \<longleftrightarrow> \<not> isBetterHand hv ov \<and> hv \<noteq> ov)"
  by (auto simp: compare_values_def isBetterHand_def lex_less)

lemma add_outcomes_Cons: "add_outcomes (oc # ocs) t = add_outcomes ocs (count_outcome oc t)"
  by (cases oc) (simp_all add: add_outcomes_def count_outcome_def)

lemma gen_at_Suc: "gen_at shuffle hero (Suc k) gen = gen_at shuffle hero k (snd (shuffle gen (buildDeck hero)))"
  unfolding gen_at_def funpow_Suc_right by simp

lemma simulate_loop_run:
  assumes "valid_hero hero" "permuting shuffle"
  shows "nat (n - i) = m \<Longrightarrow>
         \<exists>ocs. length ocs = m
           \<and> simulate_loop shuffle hero n i t gen = Inr (add_outcomes ocs t, gen_at shuffle hero m gen)
           \<and> (\<forall>k<m. \<exists>hv ov. trial_values shuffle hero (gen_at shuffle hero k gen) = (Inr hv, Inr ov)
                  \<and> ocs ! k = compare_values hv ov)"
proof (induction m arbitrary: i t gen)
  case 0
  then have "\<not> i < n" by simp
  then have "simulate_loop shuffle hero n i t gen = Inr (t, gen)"
    by (subst simulate_loop.simps) simp
  then have "length [] = (0::nat)
           \<and> simulate_loop shuffle hero n i t gen = Inr (add_outcomes [] t, gen_at shuffle hero 0 gen)
           \<and> (\<forall>k<(0::nat). \<exists>hv ov. trial_values shuffle hero (gen_at shuffle hero k gen) = (Inr hv, Inr ov)
                  \<and> [] ! k = compare_values hv ov)"
    by (simp add: add_outcomes_def gen_at_def)
  then show ?case by (rule exI[of _ "[]"])
next
  case (Suc m)
  then have lt: "i < n" and m: "nat (n - (i + 1)) = m" by simp_all
  from trial_result[OF assms, of gen] obtain hv ov where
    tv: "trial_values shuffle hero gen = (Inr hv, Inr ov)"
    and tr: "trial shuffle hero gen = Inr (compare_values hv ov, snd (shuffle gen (buildDeck hero)))"
    by blast
  define g1 where "g1 = snd (shuffle gen (buildDeck hero))"
  define oc where "oc = compare_values hv ov"
  have step: "simulate_loop shuffle hero n i t gen
               = simulate_loop shuffle hero n (i + 1) (count_outcome oc t) g1"
    using lt tr by (subst simulate_loop.simps) (simp add: g1_def oc_def)
  from Suc.IH[OF m, of "count_outcome oc t" g1] obtain ocs where
    ocs: "length ocs = m"
      "simulate_loop shuffle hero n (i + 1) (count_outcome oc t) g1
         = Inr (add_outcomes ocs (count_outcome oc t), gen_at shuffle hero m g1)"
      "\<forall>k<m. \<exists>hv ov. trial_values shuffle hero (gen_at shuffle hero k g1) = (Inr hv, Inr ov)
                  \<and> ocs ! k = compare_values hv ov"
    by blast
  have a: "length (oc # ocs) = Suc m" using ocs(1) by simp
  have b: "simulate_loop shuffle hero n i t gen
            = Inr (add_outcomes (oc # ocs) t, gen_at shuffle hero (Suc m) gen)"
    using step ocs(2) by (simp add: add_outcomes_Cons gen_at_Suc g1_def)
  have c: "\<exists>hv ov. trial_values shuffle hero (gen_at shuffle hero k gen) = (Inr hv, Inr ov)
                  \<and> (oc # ocs) ! k = compare_values hv ov" if "k < Suc m" for k
  proof (cases k)
    case 0
    then show ?thesis using tv by (simp add: gen_at_def oc_def)
  next
    case (Suc j)
    then have "j < m" using that by simp
    then show ?thesis using ocs(3) Suc by (simp add: gen_at_Suc g1_def)
  qed
  from a b c show ?case by blast
qed

lemma count_list_outcomes:
  "count_list ocs Win + count_list ocs Tie + count_list ocs Loss = length ocs"
proof (induction ocs)
  case Nil
  then show ?case by simp
next
  case (Cons oc ocs)
  then show ?case by (cases oc) simp_all
qed

lemma simulate_result:
  assumes "valid_hero (heroHand sim)" "1 \<le> simulations sim" "permuting shuffle"
  shows "\<exists>ocs. length ocs = nat (simulations sim)
           \<and> (\<forall>k<nat (simulations sim). \<exists>hv ov.
                 trial_values shuffle (heroHand sim) (gen_at shuffle (heroHand sim) k gen) = (Inr hv, Inr ov)
               \<and> ocs ! k = compare_values hv ov)
           \<and> simulate shuffle sim gen =
               Inr (Some ((real (count_list ocs Win) + 0.5 * real (count_list ocs Tie))
                          / real_of_int (simulations sim)))"
proof -
  from simulate_loop_run[OF assms(1,3), of "simulations sim" 0 "nat (simulations sim)"
      "\<lparr>wins = 0, ties = 0, losses = 0\<rparr>" gen]
  obtain ocs where
    ocs: "length ocs = nat (simulations sim)"
      "simulate_loop shuffle (heroHand sim) (simulations sim) 0 \<lparr>wins = 0, ties = 0, losses = 0\<rparr> gen
         = Inr (add_outcomes ocs \<lparr>wins = 0, ties = 0, losses = 0\<rparr>,
                gen_at shuffle (heroHand sim) (nat (simulations sim)) gen)"
      "\<forall>k<nat (simulations sim). \<exists>hv ov.
          trial_values shuffle (heroHand sim) (gen_at shuffle (heroHand sim) k gen) = (Inr hv, Inr ov)
          \<and> ocs ! k = compare_values hv ov"
    by auto
  have tot: "int (count_list ocs Win) + int (count_list ocs Tie) + int (count_list ocs Loss)
              = simulations sim"
    using count_list_outcomes[of ocs] ocs(1) assms(2) by linarith
  have "equity_of (add_outcomes ocs \<lparr>wins = 0, ties = 0, losses = 0\<rparr>)
         = Some ((real (count_list ocs Win) + 0.5 * real (count_list ocs Tie))
                  / real_of_int (simulations sim))"
    unfolding equity_of_def add_outcomes_def Let_def using tot assms(2) by simp
  then have "simulate shuffle sim gen =
               Inr (Some ((real (count_list ocs Win) + 0.5 * real (count_list ocs Tie))
                          / real_of_int (simulations sim)))"
    unfolding simulate_def ocs(2) by simp
  with ocs(1,3) show ?thesis by blast
qed

lemma mset_rotate_eq: "mset (rotate n xs) = mset xs"
proof (induction n)
  case 0
  then show ?case by simp
next
  case (Suc n)
  have "mset (rotate1 ys) = mset ys" for ys :: "'a list" by (cases ys) simp_all
  then show ?case using Suc by simp
qed

lemma rotate_permuting: "permuting (\<lambda>(g::nat) xs. (rotate g xs, g + 7))"
  by (simp add: permuting_def mset_rotate_eq)

section \<open>Claims about the best-hand selector\<close>

text \<open>
  C3. For seven different valid cards \<^verbatim>\<open>bestHandValue\<close> returns a value that some
  five-card subset evaluates to and that no five-card subset's value is better than: the
  maximum over all five-card subsets. The five nested loops make 21 index tuples, which
  select pairwise different card sets, and these are exactly the subsets of five cards.
\<close>

theorem bestHandValue_maximum:
  assumes "length seven = 7" "distinct seven" "\<forall>c\<in>set seven. valid_card c"
  shows "\<exists>best. bestHandValue seven = Inr best
          \<and> (\<exists>five. five_card_subset five seven \<and> evaluate5CardHand five = Inr best)
          \<and> (\<forall>five. five_card_subset five seven \<longrightarrow>
                (\<exists>v. evaluate5CardHand five = Inr v \<and> \<not> isBetterHand v best))
          \<and> length loop_indices = 21
          \<and> distinct (map (\<lambda>idx. set (map ((!) seven) idx)) loop_indices)
          \<and> (\<lambda>idx. set (map ((!) seven) idx)) ` set loop_indices = {S. S \<subseteq> set seven \<and> card S = 5}"
proof -
  have ranks: "\<forall>c\<in>set five. rank c \<in> set RANKS" if "five_card_subset five seven" for five
    using that assms(3) by (auto simp: five_card_subset_def valid_card_def)
  have ev: "\<exists>v. evaluate5CardHand five = Inr v" if "five_card_subset five seven" for five
    using evaluate_valid[of five] ranks[OF that] that by (simp add: five_card_subset_def)
  have all: "\<forall>idx\<in>set loop_indices. \<exists>v. evaluate5CardHand (map ((!) seven) idx) = Inr v"
    using ev index_subset[OF assms(1,2)] by blast
  have ne: "loop_indices \<noteq> []" using loop_indices_length by auto
  from best_loop_max[OF all, of "[]" True] ne obtain best where
    b: "best_loop seven loop_indices ([], True) = Inr (best, False)"
       "\<exists>idx\<in>set loop_indices. evaluate5CardHand (map ((!) seven) idx) = Inr best"
       "\<forall>idx\<in>set loop_indices. \<forall>v. evaluate5CardHand (map ((!) seven) idx) = Inr v \<longrightarrow> v \<le> best"
    by auto
  have r: "bestHandValue seven = Inr best"
    unfolding bestHandValue_def using assms(1) b(1) by simp
  have att: "\<exists>five. five_card_subset five seven \<and> evaluate5CardHand five = Inr best"
    using b(2) index_subset[OF assms(1,2)] by blast
  have mx: "\<exists>v. evaluate5CardHand five = Inr v \<and> \<not> isBetterHand v best"
    if f: "five_card_subset five seven" for five
  proof -
    from subset_covered[OF assms(1) f] obtain idx where
      idx: "idx \<in> set loop_indices" "mset (map ((!) seven) idx) = mset five" by blast
    from ev[OF f] obtain v where v: "evaluate5CardHand five = Inr v" by blast
    have "length five = 5" using f by (simp add: five_card_subset_def)
    from evaluate_mset[OF this ranks[OF f] idx(2)[symmetric]] v
    have "evaluate5CardHand (map ((!) seven) idx) = Inr v" by simp
    then have "v \<le> best" using b(3) idx(1) by blast
    then show ?thesis using v by (simp add: isBetterHand_less)
  qed
  show ?thesis
    using r att mx loop_indices_length loop_subsets_distinct[OF assms(1,2)]
      five_card_subset_sets[OF assms(1,2)] by blast
qed

theorem bestHandValue_maximum_witness:
  "length (map card_named [''2h'', ''7h'', ''9h'', ''Th'', ''Jh'', ''Qh'', ''8h'']) = 7
   \<and> distinct (map card_named [''2h'', ''7h'', ''9h'', ''Th'', ''Jh'', ''Qh'', ''8h''])
   \<and> list_all valid_card (map card_named [''2h'', ''7h'', ''9h'', ''Th'', ''Jh'', ''Qh'', ''8h''])
   \<and> bestHandValue (map card_named [''2h'', ''7h'', ''9h'', ''Th'', ''Jh'', ''Qh'', ''8h'']) = Inr [9, 12]
   \<and> five_card_subset (map card_named [''2h'', ''7h'', ''9h'', ''Th'', ''Jh''])
        (map card_named [''2h'', ''7h'', ''9h'', ''Th'', ''Jh'', ''Qh'', ''8h''])
   \<and> evaluate5CardHand (map card_named [''2h'', ''7h'', ''9h'', ''Th'', ''Jh'']) = Inr [6, 11, 10, 9, 7, 2]
   \<and> \<not> isBetterHand [6, 11, 10, 9, 7, 2] [9, 12]"
proof -
  have h1: "length (map card_named [''2h'', ''7h'', ''9h'', ''Th'', ''Jh'', ''Qh'', ''8h'']) = 7"
    by simp
  have h2: "distinct (map card_named [''2h'', ''7h'', ''9h'', ''Th'', ''Jh'', ''Qh'', ''8h''])"
    by code_simp
  have h3: "\<forall>c\<in>set (map card_named [''2h'', ''7h'', ''9h'', ''Th'', ''Jh'', ''Qh'', ''8h'']). valid_card c"
    by code_simp
  have l: "list_all valid_card (map card_named [''2h'', ''7h'', ''9h'', ''Th'', ''Jh'', ''Qh'', ''8h''])"
    using h3 by (simp add: list_all_iff)
  have b: "bestHandValue (map card_named [''2h'', ''7h'', ''9h'', ''Th'', ''Jh'', ''Qh'', ''8h'']) = Inr [9, 12]"
    by code_simp
  have f: "five_card_subset (map card_named [''2h'', ''7h'', ''9h'', ''Th'', ''Jh''])
        (map card_named [''2h'', ''7h'', ''9h'', ''Th'', ''Jh'', ''Qh'', ''8h''])"
    by code_simp
  have e: "evaluate5CardHand (map card_named [''2h'', ''7h'', ''9h'', ''Th'', ''Jh'']) = Inr [6, 11, 10, 9, 7, 2]"
    by code_simp
  from bestHandValue_maximum[OF h1 h2 h3] b f e have "\<not> isBetterHand [6, 11, 10, 9, 7, 2] [9, 12]"
    by fastforce
  with h1 h2 l b f e show ?thesis by blast
qed

section \<open>Claims about the deck and the hand notation\<close>

text \<open>
  C6. For every exclusion list the deck of \<^verbatim>\<open>buildDeck\<close> has no duplicate, holds no
  excluded card, and holds every one of the 52 valid cards that is not excluded; for a hero
  hand of two different valid cards it has exactly 50 cards.
\<close>

theorem buildDeck_complete:
  "distinct (buildDeck exclude)
   \<and> set (buildDeck exclude) \<inter> set exclude = {}
   \<and> set (buildDeck exclude) = {c. valid_card c} - set exclude
   \<and> card {c. valid_card c} = 52
   \<and> (length hero = 2 \<and> distinct hero \<and> (\<forall>c\<in>set hero. valid_card c)
        \<longrightarrow> length (buildDeck hero) = 50)"
proof -
  have "length hero = 2 \<and> distinct hero \<and> (\<forall>c\<in>set hero. valid_card c)
        \<longrightarrow> length (buildDeck hero) = 50"
    using buildDeck_length[of hero] by simp
  then show ?thesis
    using buildDeck_distinct[of exclude] buildDeck_set[of exclude] valid_cards_52 by auto
qed

theorem buildDeck_complete_witness:
  "length (parseHand ''AKs'') = 2 \<and> distinct (parseHand ''AKs'')
   \<and> list_all valid_card (parseHand ''AKs'')
   \<and> length (buildDeck (parseHand ''AKs'')) = 50
   \<and> distinct (buildDeck (parseHand ''AKs''))"
proof -
  have h: "length (parseHand ''AKs'') = 2 \<and> distinct (parseHand ''AKs'')
            \<and> (\<forall>c\<in>set (parseHand ''AKs''). valid_card c)"
    by code_simp
  then have "list_all valid_card (parseHand ''AKs'')" by (simp add: list_all_iff)
  with h buildDeck_complete[of "parseHand ''AKs''" "parseHand ''AKs''"] show ?thesis by blast
qed

text \<open>
  C8, as claimed: every malformed notation is reported as an error and only two valid,
  different cards ever reach the simulator. The code reports nothing: the malformed
  \<open>XYs\<close> is parsed to two cards with the ranks X and Y, which are no ranks, and the
  constructor stores them as the hero hand; the one-character \<open>A\<close> gives an empty hand;
  \<open>AAs\<close> gives the same card twice; the unknown style character of \<open>AKx\<close> is taken as
  offsuit.
\<close>

theorem parseHand_counterexample:
  "parseHand ''XYs'' = [\<lparr>rank = CHR ''X'', suit = CHR ''h''\<rparr>, \<lparr>rank = CHR ''Y'', suit = CHR ''h''\<rparr>]
   \<and> \<not> valid_card \<lparr>rank = CHR ''X'', suit = CHR ''h''\<rparr>
   \<and> heroHand (new_EquitySimulator ''XYs'' 1) = parseHand ''XYs''
   \<and> parseHand ''A'' = []
   \<and> parseHand ''AAs'' = [\<lparr>rank = CHR ''A'', suit = CHR ''h''\<rparr>, \<lparr>rank = CHR ''A'', suit = CHR ''h''\<rparr>]
   \<and> parseHand ''AKx'' = [\<lparr>rank = CHR ''A'', suit = CHR ''h''\<rparr>, \<lparr>rank = CHR ''K'', suit = CHR ''d''\<rparr>]"
  by (simp add: parseHand_def tolower_def valid_card_def RANKS_def new_EquitySimulator_def)

text \<open>
  C8, amended: \<^verbatim>\<open>parseHand\<close> reports no error. A string whose length is neither 2 nor 3
  gives the empty hand. A string of length 2 or 3 gives two cards whose ranks are its
  first two characters, unchecked, the first of suit h and the second of suit h when the
  string has a third character that is s or S, and of suit d otherwise. For well-formed
  notation the result is exactly two valid, different cards.
\<close>

theorem parseHand_unchecked:
  "(length s \<noteq> 2 \<and> length s \<noteq> 3 \<longrightarrow> parseHand s = [])
   \<and> (length s = 2 \<or> length s = 3 \<longrightarrow>
        parseHand s =
          [\<lparr>rank = s ! 0, suit = CHR ''h''\<rparr>,
           \<lparr>rank = s ! 1,
            suit = (if length s = 3 \<and> tolower (s ! 2) = CHR ''s'' then CHR ''h'' else CHR ''d'')\<rparr>])
   \<and> (well_formed_notation s \<longrightarrow>
        (\<exists>c1 c2. parseHand s = [c1, c2] \<and> valid_card c1 \<and> valid_card c2 \<and> c1 \<noteq> c2))"
proof -
  have a: "length s \<noteq> 2 \<and> length s \<noteq> 3 \<longrightarrow> parseHand s = []"
    by (simp add: parseHand_def)
  have b: "length s = 2 \<or> length s = 3 \<longrightarrow>
        parseHand s =
          [\<lparr>rank = s ! 0, suit = CHR ''h''\<rparr>,
           \<lparr>rank = s ! 1,
            suit = (if length s = 3 \<and> tolower (s ! 2) = CHR ''s'' then CHR ''h'' else CHR ''d'')\<rparr>]"
    by (auto simp: parseHand_def Let_def)
  have c: "\<exists>c1 c2. parseHand s = [c1, c2] \<and> valid_card c1 \<and> valid_card c2 \<and> c1 \<noteq> c2"
    if w: "well_formed_notation s"
  proof -
    from w consider "length s = 2" "s ! 0 \<in> set RANKS" "s ! 1 = s ! 0"
      | "length s = 3" "s ! 0 \<in> set RANKS" "s ! 1 \<in> set RANKS" "s ! 0 \<noteq> s ! 1"
      unfolding well_formed_notation_def by blast
    then show ?thesis
    proof cases
      case 1
      then show ?thesis by (simp add: parseHand_def valid_card_def SUITS_def)
    next
      case 2
      then show ?thesis by (simp add: parseHand_def valid_card_def SUITS_def Let_def)
    qed
  qed
  from a b c show ?thesis by blast
qed

theorem parseHand_unchecked_witness:
  "parseHand ''A'' = []
   \<and> well_formed_notation ''AKs''
   \<and> parseHand ''AKs'' = [\<lparr>rank = CHR ''A'', suit = CHR ''h''\<rparr>, \<lparr>rank = CHR ''K'', suit = CHR ''h''\<rparr>]
   \<and> (\<exists>c1 c2. parseHand ''AKs'' = [c1, c2] \<and> valid_card c1 \<and> valid_card c2 \<and> c1 \<noteq> c2)"
proof -
  have w: "well_formed_notation ''AKs''" by (simp add: well_formed_notation_def RANKS_def)
  have l: "length ''A'' \<noteq> 2 \<and> length ''A'' \<noteq> 3" "length ''AKs'' = 2 \<or> length ''AKs'' = 3" by simp_all
  have p: "parseHand ''AKs'' = [\<lparr>rank = CHR ''A'', suit = CHR ''h''\<rparr>, \<lparr>rank = CHR ''K'', suit = CHR ''h''\<rparr>]"
    by (simp add: parseHand_def tolower_def)
  from parseHand_unchecked[of "''A''"] parseHand_unchecked[of "''AKs''"] w l p show ?thesis by blast
qed

section \<open>Claims about the equity sampler\<close>

text \<open>
  C7. In a trial with a valid hero hand, whatever the generator state, the two opponent
  cards and the five board cards dealt from the shuffled deck are pairwise different and
  differ from the hero's two cards: the nine cards of the trial have no duplicate, and the
  hero's seven cards and the opponent's seven cards share exactly the five board cards.
\<close>

theorem deal_disjoint:
  assumes "valid_hero hero" "permuting shuffle"
  shows "case deal hero (fst (shuffle gen (buildDeck hero))) of
           (oppHand, board, heroSeven, oppSeven) \<Rightarrow>
             length oppHand = 2 \<and> length board = 5
           \<and> heroSeven = hero @ board \<and> oppSeven = oppHand @ board
           \<and> distinct (oppHand @ board)
           \<and> set (oppHand @ board) \<inter> set hero = {}
           \<and> distinct (hero @ oppHand @ board) \<and> length (hero @ oppHand @ board) = 9
           \<and> set heroSeven \<inter> set oppSeven = set board"
proof -
  define deck where "deck = fst (shuffle gen (buildDeck hero))"
  have m: "mset deck = mset (buildDeck hero)" using assms(2) by (simp add: deck_def permuting_def)
  note d = shuffled_deck[OF assms(1) m]
  have l: "7 \<le> length deck" using d(3) by simp
  note dt = deal_take(1)[where hero = hero, OF l] deal_take(2)[OF l]
  from assms(1) have h: "length hero = 2" "distinct hero" by (simp_all add: valid_hero_def)
  define opp where "opp = take 2 deck"
  define board where "board = take 5 (drop 2 deck)"
  have ob: "opp @ board = take 7 deck" unfolding opp_def board_def by (rule dt(2))
  have dl: "deal hero deck = (opp, board, hero @ board, opp @ board)"
    unfolding opp_def board_def by (rule dt(1))
  have 1: "distinct (opp @ board)" unfolding ob using d(1) by simp
  have 2: "set (opp @ board) \<inter> set hero = {}"
    unfolding ob using d(2) set_take_subset[of 7 deck] by auto
  have 3: "distinct (hero @ opp @ board)" using h(2) 1 2 by auto
  have 4: "length opp = 2" "length board = 5" unfolding opp_def board_def using l by simp_all
  have 5: "set (hero @ board) \<inter> set (opp @ board) = set board" using 2 by auto
  show ?thesis
    unfolding deck_def[symmetric] dl using 1 2 3 4 5 h(1) by simp
qed

theorem deal_disjoint_witness:
  "valid_hero (parseHand ''AKs'')
   \<and> permuting (\<lambda>(g::nat) xs. (rotate g xs, g + 7))
   \<and> deal (parseHand ''AKs'') (fst (rotate 3 (buildDeck (parseHand ''AKs'')), (3::nat) + 7))
       = (map card_named [''Kd'', ''Kc''],
          map card_named [''Ks'', ''Qh'', ''Qd'', ''Qc'', ''Qs''],
          map card_named [''Ah'', ''Kh'', ''Ks'', ''Qh'', ''Qd'', ''Qc'', ''Qs''],
          map card_named [''Kd'', ''Kc'', ''Ks'', ''Qh'', ''Qd'', ''Qc'', ''Qs''])
   \<and> distinct (map card_named [''Ah'', ''Kh'', ''Kd'', ''Kc'', ''Ks'', ''Qh'', ''Qd'', ''Qc'', ''Qs''])"
proof -
  have h1: "valid_hero (parseHand ''AKs'')" by code_simp
  have d: "deal (parseHand ''AKs'') (fst (rotate 3 (buildDeck (parseHand ''AKs'')), (3::nat) + 7))
       = (map card_named [''Kd'', ''Kc''],
          map card_named [''Ks'', ''Qh'', ''Qd'', ''Qc'', ''Qs''],
          map card_named [''Ah'', ''Kh'', ''Ks'', ''Qh'', ''Qd'', ''Qc'', ''Qs''],
          map card_named [''Kd'', ''Kc'', ''Ks'', ''Qh'', ''Qd'', ''Qc'', ''Qs''])"
    by code_simp
  have p: "parseHand ''AKs'' = map card_named [''Ah'', ''Kh'']" by code_simp
  from deal_disjoint[OF h1 rotate_permuting, of 3]
  have "distinct (map card_named [''Ah'', ''Kh'', ''Kd'', ''Kc'', ''Ks'', ''Qh'', ''Qd'', ''Qc'', ''Qs''])"
    unfolding d by (simp add: p)
  with h1 rotate_permuting d show ?thesis by blast
qed

text \<open>
  C4. For a valid hero hand and \<open>N \<ge> 1\<close> trials, \<^verbatim>\<open>simulate\<close> returns normally, and
  there is a list of \<open>N\<close> outcomes, one per trial, such that the outcome of trial \<open>k\<close> is a
  win exactly when the hero's best hand value is greater than the opponent's, a tie exactly
  when the two values are equal, and a loss otherwise; the numbers of wins, ties and losses
  add up to \<open>N\<close>, and the result is (wins + 0.5 ties) / \<open>N\<close>. The quotient is the exact
  one; the C++ double is its rounding.
\<close>

theorem simulate_classifies:
  assumes "valid_hero (heroHand sim)" "1 \<le> simulations sim" "permuting shuffle"
  shows "\<exists>ocs. length ocs = nat (simulations sim)
           \<and> (\<forall>k<nat (simulations sim). \<exists>hv ov.
                 trial_values shuffle (heroHand sim) (gen_at shuffle (heroHand sim) k gen) = (Inr hv, Inr ov)
               \<and> (ocs ! k = Win \<longleftrightarrow> isBetterHand hv ov)
               \<and> (ocs ! k = Tie \<longleftrightarrow> hv = ov)
               \<and> (ocs ! k = Loss \<longleftrightarrow> \<not> isBetterHand hv ov \<and> hv \<noteq> ov))
           \<and> int (count_list ocs Win) + int (count_list ocs Tie) + int (count_list ocs Loss)
               = simulations sim
           \<and> simulate shuffle sim gen =
               Inr (Some ((real (count_list ocs Win) + 0.5 * real (count_list ocs Tie))
                          / real_of_int (simulations sim)))"
proof -
  from simulate_result[OF assms, of gen] obtain ocs where
    ocs: "length ocs = nat (simulations sim)"
      "\<forall>k<nat (simulations sim). \<exists>hv ov.
          trial_values shuffle (heroHand sim) (gen_at shuffle (heroHand sim) k gen) = (Inr hv, Inr ov)
          \<and> ocs ! k = compare_values hv ov"
      "simulate shuffle sim gen =
         Inr (Some ((real (count_list ocs Win) + 0.5 * real (count_list ocs Tie))
                    / real_of_int (simulations sim)))"
    by blast
  have cl: "\<forall>k<nat (simulations sim). \<exists>hv ov.
                 trial_values shuffle (heroHand sim) (gen_at shuffle (heroHand sim) k gen) = (Inr hv, Inr ov)
               \<and> (ocs ! k = Win \<longleftrightarrow> isBetterHand hv ov)
               \<and> (ocs ! k = Tie \<longleftrightarrow> hv = ov)
               \<and> (ocs ! k = Loss \<longleftrightarrow> \<not> isBetterHand hv ov \<and> hv \<noteq> ov)"
  proof (intro allI impI)
    fix k assume "k < nat (simulations sim)"
    with ocs(2) obtain hv ov where
      h: "trial_values shuffle (heroHand sim) (gen_at shuffle (heroHand sim) k gen) = (Inr hv, Inr ov)"
         "ocs ! k = compare_values hv ov" by blast
    show "\<exists>hv ov.
                 trial_values shuffle (heroHand sim) (gen_at shuffle (heroHand sim) k gen) = (Inr hv, Inr ov)
               \<and> (ocs ! k = Win \<longleftrightarrow> isBetterHand hv ov)
               \<and> (ocs ! k = Tie \<longleftrightarrow> hv = ov)
               \<and> (ocs ! k = Loss \<longleftrightarrow> \<not> isBetterHand hv ov \<and> hv \<noteq> ov)"
      using h(1) compare_values_cases[of hv ov] unfolding h(2) by blast
  qed
  have tot: "int (count_list ocs Win) + int (count_list ocs Tie) + int (count_list ocs Loss)
              = simulations sim"
    using count_list_outcomes[of ocs] ocs(1) assms(2) by linarith
  from ocs(1) cl tot ocs(3) show ?thesis by blast
qed

theorem simulate_classifies_witness:
  "valid_hero (heroHand (new_EquitySimulator ''AKs'' 3))
   \<and> 1 \<le> simulations (new_EquitySimulator ''AKs'' 3)
   \<and> permuting (\<lambda>(g::nat) xs. (rotate g xs, g + 7))
   \<and> simulate (\<lambda>(g::nat) xs. (rotate g xs, g + 7)) (new_EquitySimulator ''AKs'' 3) 0 = Inr (Some (2 / 3))"
proof -
  have h1: "valid_hero (heroHand (new_EquitySimulator ''AKs'' 3))" by code_simp
  have h2: "1 \<le> simulations (new_EquitySimulator ''AKs'' 3)" by (simp add: new_EquitySimulator_def)
  have s: "simulate (\<lambda>(g::nat) xs. (rotate g xs, g + 7)) (new_EquitySimulator ''AKs'' 3) 0 = Inr (Some (2 / 3))"
    by code_simp
  from simulate_classifies[OF h1 h2 rotate_permuting, of 0] h1 h2 rotate_permuting s
  show ?thesis by blast
qed

text \<open>
  C5. For a valid hero hand and \<open>N \<ge> 1\<close> trials the equity that \<^verbatim>\<open>simulate\<close> returns lies
  between 0 and 1. (Both bounds are doubles and rounding is monotone, so the bounds of the
  exact quotient are those of the C++ double.)
\<close>

theorem simulate_unit_interval:
  assumes "valid_hero (heroHand sim)" "1 \<le> simulations sim" "permuting shuffle"
  shows "\<exists>e. simulate shuffle sim gen = Inr (Some e) \<and> 0 \<le> e \<and> e \<le> 1"
proof -
  from simulate_result[OF assms, of gen] obtain ocs where
    ocs: "length ocs = nat (simulations sim)"
      "simulate shuffle sim gen =
         Inr (Some ((real (count_list ocs Win) + 0.5 * real (count_list ocs Tie))
                    / real_of_int (simulations sim)))"
    by blast
  define w where "w = real (count_list ocs Win)"
  define t where "t = real (count_list ocs Tie)"
  define n where "n = real_of_int (simulations sim)"
  have "count_list ocs Win + count_list ocs Tie \<le> length ocs"
    using count_list_outcomes[of ocs] by simp
  then have "real (count_list ocs Win + count_list ocs Tie) \<le> real (length ocs)"
    by (rule of_nat_mono)
  moreover have "real (length ocs) = n" using ocs(1) assms(2) by (simp add: n_def)
  ultimately have le: "w + t \<le> n" by (simp add: w_def t_def)
  have nn: "0 \<le> w" "0 \<le> t" by (simp_all add: w_def t_def)
  have pos: "0 < n" using assms(2) by (simp add: n_def)
  have "0 \<le> (w + 0.5 * t) / n" using nn pos by simp
  moreover have "w + 0.5 * t \<le> n" using le nn by simp
  then have "(w + 0.5 * t) / n \<le> 1" using pos by simp
  ultimately show ?thesis using ocs(2) unfolding w_def t_def n_def by blast
qed

theorem simulate_unit_interval_witness:
  "valid_hero (heroHand (new_EquitySimulator ''AA'' 2))
   \<and> 1 \<le> simulations (new_EquitySimulator ''AA'' 2)
   \<and> permuting (\<lambda>(g::nat) xs. (rotate g xs, g + 7))
   \<and> (\<exists>e. simulate (\<lambda>(g::nat) xs. (rotate g xs, g + 7)) (new_EquitySimulator ''AA'' 2) 5 = Inr (Some e)
         \<and> 0 \<le> e \<and> e \<le> 1)"
proof -
  have h1: "valid_hero (heroHand (new_EquitySimulator ''AA'' 2))" by code_simp
  have h2: "1 \<le> simulations (new_EquitySimulator ''AA'' 2)" by (simp add: new_EquitySimulator_def)
  from simulate_unit_interval[OF h1 h2 rotate_permuting, of 5] h1 h2 rotate_permuting
  show ?thesis by blast
qed

end
